theory Spec2Isabelle
  imports Main
begin

text \<open>
  A model of the \<open>useSubscribe\<close> hook of replicache-react: the module-level batch
  scheduler (\<open>callbacks\<close>, \<open>hasPendingCallback\<close>, \<open>doCallback\<close>), the state one component
  instance keeps in its \<open>useState\<close> and \<open>useRef\<close> cells, the effect with its \<open>onData\<close>
  callback and its cleanup function, and the value a render returns. The rendering
  framework and the subscribable source are the environment: they decide when an effect
  runs, when a result is delivered and when a microtask runs, so the page is modelled as
  a state on which these events act in any order.
\<close>

section \<open>Values of the host language\<close>

text \<open>
  The hook is generic in the query's result type. A result is any value of the host
  language; the code only ever tests it against \<open>undefined\<close>, which it uses as the
  "no data" sentinel, so \<open>undefined\<close> and \<open>null\<close> are kept apart from all other values.
\<close>

datatype 'v jsval = Undefined | Null | Val 'v

text \<open>
  The first argument \<open>r: Subscribable<Tx> | null | undefined\<close>. Two subscribable objects
  are compared by identity (\<open>!==\<close>); the parameter \<open>'r\<close> stands for that identity.
\<close>

datatype 'r source = NullSource | UndefinedSource | Subscribable 'r

text \<open>The test \<open>!r\<close>: only \<open>null\<close> and \<open>undefined\<close> are falsy among the values of that type.\<close>

fun absent :: "'r source \<Rightarrow> bool" where
  "absent NullSource = True"
| "absent UndefinedSource = True"
| "absent (Subscribable x) = False"

text \<open>
  \<open>++generationRef.current\<close> on a number of the host language (an IEEE double): the
  successor is exact below \<open>2^53\<close>, and \<open>2^53 + 1\<close> rounds back to \<open>2^53\<close>.
\<close>

definition increment :: "nat \<Rightarrow> nat" where
  "increment n = (if n < 2 ^ 53 then n + 1 else n)"

text \<open>Reading \<open>xs[i]\<close>: out of range the host language yields \<open>undefined\<close>, here \<open>None\<close>.\<close>

fun nth_opt :: "'a list \<Rightarrow> nat \<Rightarrow> 'a option" where
  "nth_opt [] i = None"
| "nth_opt (x # xs) 0 = Some x"
| "nth_opt (x # xs) (Suc i) = nth_opt xs i"

text \<open>\<open>xs.some((x, i) => p(x, i))\<close>, the index counted from \<open>i\<close>.\<close>

fun some_from :: "('a \<Rightarrow> nat \<Rightarrow> bool) \<Rightarrow> nat \<Rightarrow> 'a list \<Rightarrow> bool" where
  "some_from p i [] = False"
| "some_from p i (x # xs) = (p x i \<or> some_from p (Suc i) xs)"

section \<open>The batch scheduler\<close>

text \<open>
  The module-level variables \<open>hasPendingCallback\<close> and \<open>callbacks\<close>. Two pieces of the
  environment are kept beside them: \<open>microtasks\<close> counts the jobs queued by
  \<open>Promise.resolve().then(doCallback)\<close> that have not run yet, and \<open>console\<close> is what
  \<open>console.error\<close> has printed. The scheduler is generic in the callbacks it stores; what
  invoking one does is given by a runner, which returns the exception thrown (if any)
  and the state the callback leaves behind.
\<close>

record ('cb, 'e) scheduler =
  hasPendingCallback :: bool
  callbacks :: "'cb list"
  microtasks :: nat
  console :: "'e list"

text \<open>
  The loop of \<open>doCallback\<close>:
  \<^verbatim>\<open>for (const callback of cbs) { try { callback(); } catch (e) { console.error(.., e); } }\<close>
\<close>

fun for_of :: "('cb \<Rightarrow> ('cb, 'e, 'z) scheduler_scheme \<Rightarrow> 'e option \<times> ('cb, 'e, 'z) scheduler_scheme)
    \<Rightarrow> 'cb list \<Rightarrow> ('cb, 'e, 'z) scheduler_scheme \<Rightarrow> ('cb, 'e, 'z) scheduler_scheme" where
  "for_of run [] s = s"
| "for_of run (cb # cbs) s =
     (case run cb s of
        (None, s') \<Rightarrow> for_of run cbs s'
      | (Some e, s') \<Rightarrow> for_of run cbs (s'\<lparr>console := console s' @ [e]\<rparr>))"

text \<open>
  \<^verbatim>\<open>function doCallback() { const cbs = callbacks; callbacks = []; hasPendingCallback = false; for ... }\<close>
\<close>

definition doCallback :: "('cb \<Rightarrow> ('cb, 'e, 'z) scheduler_scheme \<Rightarrow> 'e option \<times> ('cb, 'e, 'z) scheduler_scheme)
    \<Rightarrow> ('cb, 'e, 'z) scheduler_scheme \<Rightarrow> ('cb, 'e, 'z) scheduler_scheme" where
  "doCallback run s =
     (let cbs = callbacks s;
          s1 = s\<lparr>callbacks := []\<rparr>;
          s2 = s1\<lparr>hasPendingCallback := False\<rparr>
      in for_of run cbs s2)"

text \<open>
  The tail of \<open>onData\<close>:
  \<^verbatim>\<open>callbacks.push(cb); if (!hasPendingCallback) { void Promise.resolve().then(doCallback); hasPendingCallback = true; }\<close>
\<close>

definition enqueue :: "'cb \<Rightarrow> ('cb, 'e, 'z) scheduler_scheme \<Rightarrow> ('cb, 'e, 'z) scheduler_scheme" where
  "enqueue cb s =
     (let s1 = s\<lparr>callbacks := callbacks s @ [cb]\<rparr>
      in if \<not> hasPendingCallback s1
         then s1\<lparr>microtasks := microtasks s1 + 1, hasPendingCallback := True\<rparr>
         else s1)"

text \<open>The host runs one queued microtask: a pending \<open>doCallback\<close> job, if there is one.\<close>

definition microtask :: "('cb \<Rightarrow> ('cb, 'e, 'z) scheduler_scheme \<Rightarrow> 'e option \<times> ('cb, 'e, 'z) scheduler_scheme)
    \<Rightarrow> ('cb, 'e, 'z) scheduler_scheme \<Rightarrow> ('cb, 'e, 'z) scheduler_scheme" where
  "microtask run s =
     (if microtasks s = 0 then s
      else doCallback run (s\<lparr>microtasks := microtasks s - 1\<rparr>))"

section \<open>One instance of the hook\<close>

text \<open>
  The arguments of one call of \<open>useSubscribe\<close>. \<open>options\<close> is the object as the caller
  passes it (a missing property is \<open>undefined\<close>, here \<open>None\<close>; a missing \<open>default\<close> is the
  value \<open>undefined\<close>), \<open>call\<close> is what the destructuring
  \<^verbatim>\<open>const {default: def, dependencies = [], isEqual, keepPreviousData = true} = options;\<close>
  leaves in the local variables. \<open>query\<close> and \<open>isEqual\<close> are only handed on to
  \<open>r.subscribe\<close> and are left out.
\<close>

record ('d, 'v) options =
  opt_default :: "'v jsval"
  opt_dependencies :: "'d list option"
  opt_keepPreviousData :: "bool option"

record ('r, 'd, 'v) call =
  source_arg :: "'r source"
  def :: "'v jsval"
  dependencies :: "'d list"
  keepPreviousData :: bool

definition destructure :: "'r source \<Rightarrow> ('d, 'v) options \<Rightarrow> ('r, 'd, 'v) call" where
  "destructure src opts =
     \<lparr> source_arg = src,
       def = opt_default opts,
       dependencies = (case opt_dependencies opts of None \<Rightarrow> [] | Some ds \<Rightarrow> ds),
       keepPreviousData = (case opt_keepPreviousData opts of None \<Rightarrow> True | Some b \<Rightarrow> b) \<rparr>"

text \<open>
  The variables one run of the effect closes over: \<open>currentGen\<close> and \<open>isMounted\<close>.
  \<open>unsubscribed\<close> records that the function returned by \<open>r.subscribe\<close> has been called.
\<close>

record subscription =
  currentGen :: nat
  isMounted :: bool
  unsubscribed :: bool

text \<open>
  The state of one component instance: the \<open>useState\<close> cell, the five \<open>useRef\<close> cells, the
  closures of the effect runs so far (a subscription is named by its index in \<open>subs\<close>), and
  the cleanup function the last effect run returned, which the framework keeps until the
  next run of the effect or the unmount: the subscription it tears down and the value of
  \<open>keepPreviousData\<close> it closed over.
\<close>

record ('r, 'd, 'v) hook =
  snapshot :: "'v jsval"
  prevSnapshotRef :: "'v jsval"
  generationRef :: nat
  prevRRef :: "'r source"
  prevDepsRef :: "'d list"
  hasRunEffectRef :: bool
  subs :: "subscription list"
  cleanupFn :: "(nat \<times> bool) option"

definition init_hook :: "('r, 'd, 'v) hook" where
  "init_hook =
     \<lparr> snapshot = Undefined, prevSnapshotRef = Undefined, generationRef = 0,
       prevRRef = UndefinedSource, prevDepsRef = [], hasRunEffectRef = False,
       subs = [], cleanupFn = None \<rparr>"

text \<open>
  \<^verbatim>\<open>const depsChanged = dependencies.length !== prevDepsRef.current.length ||
    dependencies.some((dep, i) => !Object.is(dep, prevDepsRef.current[i]));\<close>
  Dependencies are opaque keys compared by \<open>Object.is\<close>, here equality on \<open>'d\<close>.
\<close>

definition depsChanged :: "'d list \<Rightarrow> 'd list \<Rightarrow> bool" where
  "depsChanged deps prev =
     (length deps \<noteq> length prev \<or> some_from (\<lambda>dep i. nth_opt prev i \<noteq> Some dep) 0 deps)"

text \<open>
  \<^verbatim>\<open>const hasTransitioned = (r !== prevRRef.current || depsChanged) && hasRunEffectRef.current;\<close>
\<close>

definition hasTransitioned :: "('r, 'd, 'v) call \<Rightarrow> ('r, 'd, 'v) hook \<Rightarrow> bool" where
  "hasTransitioned c hk =
     ((source_arg c \<noteq> prevRRef hk \<or> depsChanged (dependencies c) (prevDepsRef hk))
      \<and> hasRunEffectRef hk)"

text \<open>
  The value one render returns (the three \<open>return\<close> statements that end \<open>useSubscribe\<close>),
  from the arguments of the call and the state of the instance at that render.
\<close>

definition useSubscribe :: "('r, 'd, 'v) call \<Rightarrow> ('r, 'd, 'v) hook \<Rightarrow> 'v jsval" where
  "useSubscribe c hk =
     (if hasTransitioned c hk \<and> \<not> keepPreviousData c then def c
      else if snapshot hk = Undefined then
        (if keepPreviousData c \<and> prevSnapshotRef hk \<noteq> Undefined then prevSnapshotRef hk
         else def c)
      else snapshot hk)"

text \<open>
  The body of the effect, for the render whose arguments are \<open>c\<close> and whose \<open>snapshot\<close>
  variable held \<open>snap\<close>. With a source it ends in \<open>r.subscribe(query, {onData, isEqual})\<close>,
  which adds a subscription, and returns the cleanup function; without one it returns
  nothing.
\<close>

definition effect :: "('r, 'd, 'v) call \<Rightarrow> 'v jsval \<Rightarrow> ('r, 'd, 'v) hook \<Rightarrow> ('r, 'd, 'v) hook" where
  "effect c snap hk =
     (let hk1 = hk\<lparr>hasRunEffectRef := True, prevRRef := source_arg c,
                   prevDepsRef := dependencies c\<rparr>
      in if absent (source_arg c) then hk1\<lparr>cleanupFn := None\<rparr>
         else
           let hk2 = (if keepPreviousData c \<and> snap \<noteq> Undefined
                      then hk1\<lparr>prevSnapshotRef := snap\<rparr> else hk1);
               gen = increment (generationRef hk2);
               hk3 = hk2\<lparr>generationRef := gen\<rparr>
           in hk3\<lparr>subs := subs hk3 @ [\<lparr>currentGen = gen, isMounted = True, unsubscribed = False\<rparr>],
                  cleanupFn := Some (length (subs hk3), keepPreviousData c)\<rparr>)"

text \<open>
  The cleanup function of subscription \<open>i\<close>, which closed over \<open>keepPreviousData = keep\<close>:
  \<^verbatim>\<open>isMounted = false; unsubscribe(); prevSnapshotRef.current = undefined;
  if (!keepPreviousData) { setSnapshot(undefined); }\<close>
\<close>

definition cleanup :: "nat \<Rightarrow> bool \<Rightarrow> ('r, 'd, 'v) hook \<Rightarrow> ('r, 'd, 'v) hook" where
  "cleanup i keep hk =
     (let hk1 = hk\<lparr>subs := (if i < length (subs hk)
                             then (subs hk)[i := (subs hk ! i)\<lparr>isMounted := False, unsubscribed := True\<rparr>]
                             else subs hk)\<rparr>;
          hk2 = hk1\<lparr>prevSnapshotRef := Undefined\<rparr>
      in if \<not> keep then hk2\<lparr>snapshot := Undefined\<rparr> else hk2)"

section \<open>The page: all instances and the shared scheduler\<close>

text \<open>
  A queued callback is the closure \<open>() => { if (isMounted) { setSnapshot(data); } }\<close>: it
  is determined by the instance whose \<open>setSnapshot\<close> it holds, the subscription whose
  \<open>isMounted\<close> it reads, and \<open>data\<close>.
\<close>

record 'v callback =
  cb_hook :: nat
  cb_sub :: nat
  cb_data :: "'v jsval"

record ('r, 'd, 'v, 'e) world = "('v callback, 'e) scheduler" +
  hooks :: "nat \<Rightarrow> ('r, 'd, 'v) hook"

definition init_world :: "('r, 'd, 'v, 'e) world" where
  "init_world =
     \<lparr> hasPendingCallback = False, callbacks = [], microtasks = 0, console = [],
       hooks = (\<lambda>h. init_hook) \<rparr>"

definition setSnapshot :: "nat \<Rightarrow> 'v jsval \<Rightarrow> ('r, 'd, 'v, 'e) world \<Rightarrow> ('r, 'd, 'v, 'e) world" where
  "setSnapshot h v s = s\<lparr>hooks := (hooks s)(h := (hooks s h)\<lparr>snapshot := v\<rparr>)\<rparr>"

text \<open>Invoking a queued callback. It never throws.\<close>

definition run_callback :: "'v callback \<Rightarrow> ('r, 'd, 'v, 'e) world \<Rightarrow> 'e option \<times> ('r, 'd, 'v, 'e) world" where
  "run_callback cb s =
     (case nth_opt (subs (hooks s (cb_hook cb))) (cb_sub cb) of
        None \<Rightarrow> (None, s)
      | Some sub \<Rightarrow>
          if isMounted sub then (None, setSnapshot (cb_hook cb) (cb_data cb) s) else (None, s))"

text \<open>
  \<open>onData\<close> of subscription \<open>i\<close> of instance \<open>h\<close>, called by the source with \<open>data\<close>. A
  subscription that was never created has no \<open>onData\<close> to call.
\<close>

definition onData :: "nat \<Rightarrow> nat \<Rightarrow> 'v jsval \<Rightarrow> ('r, 'd, 'v, 'e) world \<Rightarrow> ('r, 'd, 'v, 'e) world" where
  "onData h i data s =
     (case nth_opt (subs (hooks s h)) i of
        None \<Rightarrow> s
      | Some sub \<Rightarrow>
          if generationRef (hooks s h) \<noteq> currentGen sub then s
          else
            let s1 = s\<lparr>hooks := (hooks s)(h := (hooks s h)\<lparr>prevSnapshotRef := data\<rparr>)\<rparr>
            in enqueue \<lparr>cb_hook = h, cb_sub = i, cb_data = data\<rparr> s1)"

text \<open>
  The framework commits a render of instance \<open>h\<close> whose effect has to run (the first
  render, or one whose array \<open>[r, ...dependencies]\<close> changed): the cleanup function kept
  from the last run is called, then the effect of this render, which closed over the
  \<open>snapshot\<close> the render read. The render and the run of its effect are one step here:
  nothing happens in between, so that \<open>snapshot\<close> is the one of the state. When the
  effect has to run is the framework's decision and not part of the model: a run of the
  page may commit any instance with any arguments at any time.
\<close>

definition commit :: "nat \<Rightarrow> ('r, 'd, 'v) call \<Rightarrow> ('r, 'd, 'v, 'e) world \<Rightarrow> ('r, 'd, 'v, 'e) world" where
  "commit h c s =
     (let hk = hooks s h;
          snap = snapshot hk;
          hk1 = (case cleanupFn hk of None \<Rightarrow> hk | Some (i, keep) \<Rightarrow> cleanup i keep hk)
      in s\<lparr>hooks := (hooks s)(h := effect c snap hk1)\<rparr>)"

text \<open>The framework unmounts instance \<open>h\<close>: the kept cleanup function is called.\<close>

definition unmount :: "nat \<Rightarrow> ('r, 'd, 'v, 'e) world \<Rightarrow> ('r, 'd, 'v, 'e) world" where
  "unmount h s =
     (case cleanupFn (hooks s h) of
        None \<Rightarrow> s
      | Some (i, keep) \<Rightarrow> s\<lparr>hooks := (hooks s)(h := (cleanup i keep (hooks s h))\<lparr>cleanupFn := None\<rparr>)\<rparr>)"

text \<open>What a render of instance \<open>h\<close> with arguments \<open>c\<close> returns in state \<open>s\<close>.\<close>

definition render :: "nat \<Rightarrow> ('r, 'd, 'v) call \<Rightarrow> ('r, 'd, 'v, 'e) world \<Rightarrow> 'v jsval" where
  "render h c s = useSubscribe c (hooks s h)"

text \<open>
  Everything that can happen to the page, in any order: a commit that runs the effect
  of an instance, a result delivered by a source to a subscription, a microtask, an
  unmount.
\<close>

datatype ('r, 'd, 'v) event =
    Commit nat "('r, 'd, 'v) call"
  | Deliver nat nat "'v jsval"
  | Microtask
  | Unmount nat

fun step :: "('r, 'd, 'v) event \<Rightarrow> ('r, 'd, 'v, 'e) world \<Rightarrow> ('r, 'd, 'v, 'e) world" where
  "step (Commit h c) s = commit h c s"
| "step (Deliver h i data) s = onData h i data s"
| "step Microtask s = microtask run_callback s"
| "step (Unmount h) s = unmount h s"

fun run_events :: "('r, 'd, 'v) event list \<Rightarrow> ('r, 'd, 'v, 'e) world \<Rightarrow> ('r, 'd, 'v, 'e) world" where
  "run_events [] s = s"
| "run_events (ev # evs) s = run_events evs (step ev s)"

section \<open>Notions used to state and prove the properties\<close>

text \<open>
  An example call for the concrete runs below: the caller passes only a default, so
  \<open>dependencies\<close> is \<open>[]\<close> and \<open>keepPreviousData\<close> is \<open>true\<close>; \<open>call_A\<close>, \<open>call_B\<close>
  and \<open>call_C\<close> name three different sources, \<open>call_none\<close> passes \<open>null\<close>, and the \<open>_reset\<close>
  variants pass \<open>keepPreviousData: false\<close>.
\<close>

definition example_options :: "(nat, string) options" where
  "example_options = \<lparr>opt_default = Val ''default'', opt_dependencies = None, opt_keepPreviousData = None\<rparr>"

definition call_A :: "(nat, nat, string) call" where
  "call_A = destructure (Subscribable 1) example_options"

definition call_B :: "(nat, nat, string) call" where
  "call_B = destructure (Subscribable 2) example_options"

definition call_C :: "(nat, nat, string) call" where
  "call_C = destructure (Subscribable 3) example_options"

definition call_none :: "(nat, nat, string) call" where
  "call_none = destructure NullSource example_options"

definition call_A_reset :: "(nat, nat, string) call" where
  "call_A_reset = destructure (Subscribable 1) (example_options\<lparr>opt_keepPreviousData := Some False\<rparr>)"

definition call_B_reset :: "(nat, nat, string) call" where
  "call_B_reset = destructure (Subscribable 2) (example_options\<lparr>opt_keepPreviousData := Some False\<rparr>)"

definition call_none_reset :: "(nat, nat, string) call" where
  "call_none_reset = destructure NullSource (example_options\<lparr>opt_keepPreviousData := Some False\<rparr>)"

definition page0 :: "(nat, nat, string, string) world" where
  "page0 = init_world"

text \<open>
  A runner for pages on which the \<open>setSnapshot\<close> of instance \<open>bad\<close> throws \<open>e\<close>; the
  callbacks of the other instances run as usual.
\<close>

definition run_faulty :: "nat \<Rightarrow> 'e \<Rightarrow> 'v callback \<Rightarrow> ('r, 'd, 'v, 'e) world \<Rightarrow> 'e option \<times> ('r, 'd, 'v, 'e) world" where
  "run_faulty bad e cb s = (if cb_hook cb = bad then (Some e, s) else run_callback cb s)"

text \<open>The arguments of the last commit of instance \<open>h\<close> in a run, if there was one.\<close>

fun last_commit :: "nat \<Rightarrow> ('r, 'd, 'v) event list \<Rightarrow> ('r, 'd, 'v) call option" where
  "last_commit h [] = None"
| "last_commit h (ev # evs) =
     (case last_commit h evs of
        Some c \<Rightarrow> Some c
      | None \<Rightarrow> (case ev of Commit h' c \<Rightarrow> if h' = h then Some c else None | _ \<Rightarrow> None))"

text \<open>The values delivered to the subscriptions of instance \<open>h\<close> in a run.\<close>

fun deliveries :: "nat \<Rightarrow> ('r, 'd, 'v) event list \<Rightarrow> 'v jsval list" where
  "deliveries h [] = []"
| "deliveries h (Deliver h' i d # evs) = (if h' = h then d # deliveries h evs else deliveries h evs)"
| "deliveries h (ev # evs) = deliveries h evs"

text \<open>The three cells the transition detector reads.\<close>

definition refs :: "('r, 'd, 'v) hook \<Rightarrow> bool \<times> 'r source \<times> 'd list" where
  "refs hk = (hasRunEffectRef hk, prevRRef hk, prevDepsRef hk)"

text \<open>
  The scheduler between two jobs: the flag is set exactly when one flush is queued, and
  without a queued flush the queue is empty. \<open>idle\<close>: nothing queued at all.
\<close>

definition sched_ok :: "('cb, 'e, 'z) scheduler_scheme \<Rightarrow> bool" where
  "sched_ok s = (if hasPendingCallback s then microtasks s = 1 else microtasks s = 0 \<and> callbacks s = [])"

definition idle :: "('cb, 'e, 'z) scheduler_scheme \<Rightarrow> bool" where
  "idle s = (\<not> hasPendingCallback s \<and> callbacks s = [] \<and> microtasks s = 0)"

text \<open>
  What holds of every instance between two events: no subscription has a generation
  above the counter, a superseded one has a smaller generation (while the counter
  counts exactly), only the subscription of the kept cleanup function is mounted, and
  that one is the last created and carries the current generation.
\<close>

definition hook_inv :: "('r, 'd, 'v) hook \<Rightarrow> bool" where
  "hook_inv hk \<longleftrightarrow>
     (\<forall>j < length (subs hk). currentGen (subs hk ! j) \<le> generationRef hk) \<and>
     (generationRef hk < 2 ^ 53 \<longrightarrow>
        (\<forall>j. Suc j < length (subs hk) \<longrightarrow> currentGen (subs hk ! j) < generationRef hk)) \<and>
     (\<forall>j < length (subs hk). isMounted (subs hk ! j) \<longrightarrow> (\<exists>k. cleanupFn hk = Some (j, k))) \<and>
     (\<forall>j k. cleanupFn hk = Some (j, k) \<longrightarrow>
        Suc j = length (subs hk) \<and> currentGen (subs hk ! j) = generationRef hk \<and> isMounted (subs hk ! j))"

text \<open>Every queued callback belongs to a subscription that exists.\<close>

definition cb_ok :: "('r, 'd, 'v, 'e) world \<Rightarrow> bool" where
  "cb_ok s \<longleftrightarrow> (\<forall>cb \<in> set (callbacks s). cb_sub cb < length (subs (hooks s (cb_hook cb))))"

definition world_inv :: "('r, 'd, 'v, 'e) world \<Rightarrow> bool" where
  "world_inv s \<longleftrightarrow> sched_ok s \<and> (\<forall>h. hook_inv (hooks s h)) \<and> cb_ok s"

text \<open>
  Events that leave instance \<open>h\<close> waiting for subscription \<open>n\<close>: no commit or unmount of
  \<open>h\<close> and no delivery by subscription \<open>n\<close> of \<open>h\<close>; microtasks, deliveries by the other
  subscriptions of \<open>h\<close> and everything about other instances are allowed. \<open>settled\<close> is
  the state that goes with it: no other subscription of \<open>h\<close> is mounted, and nothing
  queued comes from subscription \<open>n\<close>. \<open>superseded\<close>: no other subscription of \<open>h\<close>
  carries the current generation.
\<close>

fun quiet :: "nat \<Rightarrow> nat \<Rightarrow> ('r, 'd, 'v) event \<Rightarrow> bool" where
  "quiet h n (Commit h' c) = (h' \<noteq> h)"
| "quiet h n (Deliver h' i d) = (h' \<noteq> h \<or> i \<noteq> n)"
| "quiet h n Microtask = True"
| "quiet h n (Unmount h') = (h' \<noteq> h)"

definition settled :: "nat \<Rightarrow> nat \<Rightarrow> ('r, 'd, 'v, 'e) world \<Rightarrow> bool" where
  "settled h n s \<longleftrightarrow>
     (\<forall>j < length (subs (hooks s h)). j \<noteq> n \<longrightarrow> \<not> isMounted (subs (hooks s h) ! j)) \<and>
     (\<forall>cb \<in> set (callbacks s). cb_hook cb = h \<longrightarrow> cb_sub cb \<noteq> n)"


text \<open>
  \<open>keepPreviousData\<close> of the last commit of instance \<open>h\<close> that had a source, that is, of
  the subscription last set up, if there was one; and what then holds of the instance:
  a kept cleanup function closed over that value, after an effect that saw a source, and
  without a kept cleanup function the snapshot is absent unless that value was \<open>true\<close>.
\<close>

fun last_setup :: "nat \<Rightarrow> ('r, 'd, 'v) event list \<Rightarrow> bool option" where
  "last_setup h [] = None"
| "last_setup h (ev # evs) =
     (case last_setup h evs of
        Some keep \<Rightarrow> Some keep
      | None \<Rightarrow>
          (case ev of
             Commit h' c \<Rightarrow> if h' = h \<and> \<not> absent (source_arg c) then Some (keepPreviousData c) else None
           | _ \<Rightarrow> None))"

definition kept_inv :: "bool option \<Rightarrow> ('r, 'd, 'v) hook \<Rightarrow> bool" where
  "kept_inv setup hk =
     (case cleanupFn hk of
        None \<Rightarrow> snapshot hk = Undefined \<or> setup = Some True
      | Some (i, keep) \<Rightarrow> setup = Some keep \<and> \<not> absent (prevRRef hk) \<and> hasRunEffectRef hk)"

text \<open>Every value held by a snapshot, a cache or a queued callback of an instance is in \<open>D\<close> of that instance.\<close>

definition data_inv :: "(nat \<Rightarrow> 'v jsval set) \<Rightarrow> ('r, 'd, 'v, 'e) world \<Rightarrow> bool" where
  "data_inv D s \<longleftrightarrow>
     (\<forall>h. snapshot (hooks s h) \<in> D h \<and> prevSnapshotRef (hooks s h) \<in> D h) \<and>
     (\<forall>cb \<in> set (callbacks s). cb_data cb \<in> D (cb_hook cb))"

section \<open>Lists and comparing dependencies\<close>

lemma some_from_iff:
  "some_from (\<lambda>dep i. nth_opt prev i \<noteq> Some dep) k deps
     \<longleftrightarrow> (\<exists>j < length deps. nth_opt prev (k + j) \<noteq> Some (deps ! j))"
proof (induction deps arbitrary: k)
  case Nil
  then show ?case by simp
next
  case (Cons d ds)
  show ?case
  proof
    assume "some_from (\<lambda>dep i. nth_opt prev i \<noteq> Some dep) k (d # ds)"
    then consider "nth_opt prev k \<noteq> Some d"
      | j where "j < length ds" "nth_opt prev (Suc k + j) \<noteq> Some (ds ! j)"
      using Cons.IH [of "Suc k"] by auto
    then show "\<exists>j < length (d # ds). nth_opt prev (k + j) \<noteq> Some ((d # ds) ! j)"
    proof cases
      case 1
      then show ?thesis by (intro exI [of _ 0]) simp
    next
      case 2
      then show ?thesis by (intro exI [of _ "Suc j"]) simp
    qed
  next
    assume "\<exists>j < length (d # ds). nth_opt prev (k + j) \<noteq> Some ((d # ds) ! j)"
    then obtain j where j: "j < length (d # ds)" "nth_opt prev (k + j) \<noteq> Some ((d # ds) ! j)"
      by blast
    show "some_from (\<lambda>dep i. nth_opt prev i \<noteq> Some dep) k (d # ds)"
    proof (cases j)
      case 0
      with j show ?thesis by simp
    next
      case (Suc j')
      with j have "j' < length ds" "nth_opt prev (Suc k + j') \<noteq> Some (ds ! j')" by simp_all
      then show ?thesis using Cons.IH [of "Suc k"] by auto
    qed
  qed
qed

lemma nth_opt_eq: "nth_opt xs i = (if i < length xs then Some (xs ! i) else None)"
proof (induction xs i rule: nth_opt.induct)
  case (1 i)
  then show ?case by simp
next
  case (2 x xs)
  then show ?case by simp
next
  case (3 x xs i)
  then show ?case by simp
qed

lemma depsChanged_iff: "depsChanged deps prev \<longleftrightarrow> deps \<noteq> prev"
proof (cases "length deps = length prev")
  case False
  then show ?thesis by (auto simp: depsChanged_def)
next
  case True
  then have "some_from (\<lambda>dep i. nth_opt prev i \<noteq> Some dep) 0 deps
      \<longleftrightarrow> (\<exists>j < length deps. prev ! j \<noteq> deps ! j)"
    by (simp only: some_from_iff) (auto simp: nth_opt_eq)
  with True show ?thesis
    by (auto simp: depsChanged_def list_eq_iff_nth_eq)
qed

lemma run_events_append: "run_events (xs @ ys) s = run_events ys (run_events xs s)"
  by (induction xs arbitrary: s) simp_all

lemma last_commit_snoc:
  "last_commit h (evs @ [ev]) =
     (case ev of Commit h' c \<Rightarrow> if h' = h then Some c else last_commit h evs | _ \<Rightarrow> last_commit h evs)"
  by (induction evs) (auto split: option.splits event.splits)

lemma deliveries_snoc:
  "set (deliveries h (evs @ [ev])) =
     set (deliveries h evs) \<union> (case ev of Deliver h' i d \<Rightarrow> if h' = h then {d} else {} | _ \<Rightarrow> {})"
  by (induction h evs rule: deliveries.induct) (auto split: event.splits)

lemma increment_ge: "n \<le> increment n"
  by (simp add: increment_def)

lemma increment_less: "increment n < 2 ^ 53 \<Longrightarrow> n < increment n"
  by (simp add: increment_def split: if_splits)


section \<open>What each operation does to an instance and to the scheduler\<close>

lemma cleanup_fields:
  "generationRef (cleanup i k hk) = generationRef hk"
  "prevRRef (cleanup i k hk) = prevRRef hk"
  "prevDepsRef (cleanup i k hk) = prevDepsRef hk"
  "hasRunEffectRef (cleanup i k hk) = hasRunEffectRef hk"
  "cleanupFn (cleanup i k hk) = cleanupFn hk"
  "prevSnapshotRef (cleanup i k hk) = Undefined"
  "snapshot (cleanup i k hk) = (if k then snapshot hk else Undefined)"
  "length (subs (cleanup i k hk)) = length (subs hk)"
  by (simp_all add: cleanup_def Let_def)

lemma effect_refs:
  "prevRRef (effect c snap hk) = source_arg c"
  "prevDepsRef (effect c snap hk) = dependencies c"
  "hasRunEffectRef (effect c snap hk) = True"
  "snapshot (effect c snap hk) = snapshot hk"
  by (simp_all add: effect_def Let_def)

lemma hooks_commit:
  "hooks (commit h c s) h' =
     (if h' = h
      then effect c (snapshot (hooks s h))
             (case cleanupFn (hooks s h) of None \<Rightarrow> hooks s h | Some (i, keep) \<Rightarrow> cleanup i keep (hooks s h))
      else hooks s h')"
  by (simp add: commit_def Let_def)

lemma hooks_unmount:
  "hooks (unmount h s) h' =
     (if h' = h
      then (case cleanupFn (hooks s h) of None \<Rightarrow> hooks s h
            | Some (i, keep) \<Rightarrow> (cleanup i keep (hooks s h))\<lparr>cleanupFn := None\<rparr>)
      else hooks s h')"
  by (simp add: unmount_def split: option.splits)

lemma hooks_enqueue: "hooks (enqueue cb s) = hooks s"
  by (simp add: enqueue_def Let_def)

lemma hooks_onData:
  "hooks (onData h i d s) h' =
     (if h' = h \<and> (\<exists>sub. nth_opt (subs (hooks s h)) i = Some sub \<and> generationRef (hooks s h) = currentGen sub)
      then (hooks s h)\<lparr>prevSnapshotRef := d\<rparr> else hooks s h')"
  by (auto simp: onData_def Let_def hooks_enqueue split: option.splits)

lemma hooks_run_callback:
  "hooks (snd (run_callback cb s)) h =
     (if h = cb_hook cb \<and> (\<exists>sub. nth_opt (subs (hooks s h)) (cb_sub cb) = Some sub \<and> isMounted sub)
      then (hooks s h)\<lparr>snapshot := cb_data cb\<rparr> else hooks s h)"
  by (auto simp: run_callback_def setSnapshot_def split: option.splits)

lemma fst_run_callback: "fst (run_callback cb s) = None"
  by (simp add: run_callback_def split: option.splits)

lemma for_of_run_callback:
  "for_of run_callback (cb # cbs) s = for_of run_callback cbs (snd (run_callback cb s))"
  using fst_run_callback [of cb s] by (cases "run_callback cb s") (auto split: option.splits)

lemma for_of_append: "for_of run (xs @ ys) s = for_of run ys (for_of run xs s)"
  by (induction xs arbitrary: s) (auto split: prod.splits option.splits)

lemma hooks_for_of:
  "\<exists>v. hooks (for_of run_callback cbs s) h = (hooks s h)\<lparr>snapshot := v\<rparr>"
proof (induction cbs arbitrary: s)
  case Nil
  show ?case by (rule exI [of _ "snapshot (hooks s h)"]) simp
next
  case (Cons cb cbs)
  obtain v where v: "hooks (for_of run_callback cbs (snd (run_callback cb s))) h
      = (hooks (snd (run_callback cb s)) h)\<lparr>snapshot := v\<rparr>"
    using Cons.IH by blast
  show ?case
    unfolding for_of_run_callback v
    by (rule exI [of _ v]) (simp add: hooks_run_callback)
qed

lemma hooks_microtask:
  "\<exists>v. hooks (microtask run_callback s) h = (hooks s h)\<lparr>snapshot := v\<rparr>"
proof (cases "microtasks s = 0")
  case True
  then show ?thesis by (intro exI [of _ "snapshot (hooks s h)"]) (simp add: microtask_def)
next
  case False
  then show ?thesis
    using hooks_for_of [of "callbacks s" "s\<lparr>microtasks := microtasks s - 1, callbacks := [], hasPendingCallback := False\<rparr>" h]
    by (simp add: microtask_def doCallback_def Let_def)
qed

lemma subs_for_of: "subs (hooks (for_of run_callback cbs s) h) = subs (hooks s h)"
  using hooks_for_of [of cbs s h] by auto

lemma sched_commit:
  "callbacks (commit h c s) = callbacks s"
  "hasPendingCallback (commit h c s) = hasPendingCallback s"
  "microtasks (commit h c s) = microtasks s"
  "console (commit h c s) = console s"
  by (simp_all add: commit_def Let_def)

lemma sched_unmount:
  "callbacks (unmount h s) = callbacks s"
  "hasPendingCallback (unmount h s) = hasPendingCallback s"
  "microtasks (unmount h s) = microtasks s"
  "console (unmount h s) = console s"
  by (simp_all add: unmount_def split: option.splits)

lemma sched_run_callback:
  "callbacks (snd (run_callback cb s)) = callbacks s"
  "hasPendingCallback (snd (run_callback cb s)) = hasPendingCallback s"
  "microtasks (snd (run_callback cb s)) = microtasks s"
  "console (snd (run_callback cb s)) = console s"
  by (simp_all add: run_callback_def setSnapshot_def split: option.splits)

lemma sched_for_of:
  "callbacks (for_of run_callback cbs s) = callbacks s
   \<and> hasPendingCallback (for_of run_callback cbs s) = hasPendingCallback s
   \<and> microtasks (for_of run_callback cbs s) = microtasks s
   \<and> console (for_of run_callback cbs s) = console s"
proof (induction cbs arbitrary: s)
  case Nil
  show ?case by simp
next
  case (Cons cb cbs)
  show ?case
    unfolding for_of_run_callback by (simp add: Cons.IH sched_run_callback)
qed

lemma snapshot_commit:
  "snapshot (hooks (commit h c s) h) =
     (case cleanupFn (hooks s h) of
        None \<Rightarrow> snapshot (hooks s h)
      | Some (i, keep) \<Rightarrow> if keep then snapshot (hooks s h) else Undefined)"
  by (simp add: hooks_commit effect_refs cleanup_fields split: option.splits)

lemma prevSnapshotRef_commit:
  "prevSnapshotRef (hooks (commit h c s) h) =
     (if \<not> absent (source_arg c) \<and> keepPreviousData c \<and> snapshot (hooks s h) \<noteq> Undefined
      then snapshot (hooks s h)
      else (case cleanupFn (hooks s h) of None \<Rightarrow> prevSnapshotRef (hooks s h) | Some p \<Rightarrow> Undefined))"
  by (simp add: hooks_commit effect_def Let_def cleanup_fields split: option.splits)

lemma commit_values:
  "snapshot (hooks (commit h c s) h') = snapshot (hooks s h') \<or> snapshot (hooks (commit h c s) h') = Undefined"
  "prevSnapshotRef (hooks (commit h c s) h') = prevSnapshotRef (hooks s h')
   \<or> prevSnapshotRef (hooks (commit h c s) h') = Undefined
   \<or> prevSnapshotRef (hooks (commit h c s) h') = snapshot (hooks s h')"
proof -
  show "snapshot (hooks (commit h c s) h') = snapshot (hooks s h') \<or> snapshot (hooks (commit h c s) h') = Undefined"
  proof (cases "h' = h")
    case True
    then show ?thesis by (simp add: snapshot_commit split: option.splits)
  next
    case False
    then show ?thesis by (simp add: hooks_commit)
  qed
  show "prevSnapshotRef (hooks (commit h c s) h') = prevSnapshotRef (hooks s h')
   \<or> prevSnapshotRef (hooks (commit h c s) h') = Undefined
   \<or> prevSnapshotRef (hooks (commit h c s) h') = snapshot (hooks s h')"
  proof (cases "h' = h")
    case True
    then show ?thesis by (simp add: prevSnapshotRef_commit split: option.splits)
  next
    case False
    then show ?thesis by (simp add: hooks_commit)
  qed
qed

lemma unmount_values:
  "snapshot (hooks (unmount h s) h') = snapshot (hooks s h') \<or> snapshot (hooks (unmount h s) h') = Undefined"
  "prevSnapshotRef (hooks (unmount h s) h') = prevSnapshotRef (hooks s h')
   \<or> prevSnapshotRef (hooks (unmount h s) h') = Undefined"
  by (simp_all add: hooks_unmount cleanup_fields split: option.splits)

lemma onData_values:
  "snapshot (hooks (onData h i d s) h') = snapshot (hooks s h')"
  "prevSnapshotRef (hooks (onData h i d s) h') = prevSnapshotRef (hooks s h')
   \<or> h' = h \<and> prevSnapshotRef (hooks (onData h i d s) h') = d"
  "set (callbacks (onData h i d s)) \<subseteq> insert \<lparr>cb_hook = h, cb_sub = i, cb_data = d\<rparr> (set (callbacks s))"
  by (auto simp: hooks_onData onData_def enqueue_def Let_def split: option.splits)

lemma onData_accepted:
  assumes "nth_opt (subs (hooks s h)) i = Some sub" "currentGen sub = generationRef (hooks s h)"
  shows "onData h i d s =
     enqueue \<lparr>cb_hook = h, cb_sub = i, cb_data = d\<rparr>
       (s\<lparr>hooks := (hooks s)(h := (hooks s h)\<lparr>prevSnapshotRef := d\<rparr>)\<rparr>)"
  using assms by (simp add: onData_def Let_def)


section \<open>The cells of the transition detector along a run\<close>

lemma refs_step:
  "refs (hooks (step ev s) h) =
     (case ev of
        Commit h' c \<Rightarrow> if h' = h then (True, source_arg c, dependencies c) else refs (hooks s h)
      | _ \<Rightarrow> refs (hooks s h))"
proof (cases ev)
  case (Commit h' c)
  then show ?thesis by (simp add: refs_def hooks_commit effect_refs)
next
  case (Deliver h' i d)
  then show ?thesis by (simp add: refs_def hooks_onData)
next
  case Microtask
  obtain v where "hooks (microtask run_callback s) h = (hooks s h)\<lparr>snapshot := v\<rparr>"
    using hooks_microtask by blast
  with Microtask show ?thesis by (simp add: refs_def)
next
  case (Unmount h')
  then show ?thesis by (simp add: refs_def hooks_unmount cleanup_fields split: option.splits)
qed

lemma refs_run_events:
  "refs (hooks (run_events evs s) h) =
     (case last_commit h evs of
        None \<Rightarrow> refs (hooks s h)
      | Some c \<Rightarrow> (True, source_arg c, dependencies c))"
proof (induction evs rule: rev_induct)
  case Nil
  then show ?case by simp
next
  case (snoc ev evs)
  then show ?case
    by (simp add: run_events_append refs_step last_commit_snoc split: event.splits)
qed

lemma refs_init: "refs (hooks init_world h) = (False, UndefinedSource, [])"
  by (simp add: refs_def init_world_def init_hook_def)


section \<open>The scheduler\<close>

lemma sched_ok_enqueue: "sched_ok s \<Longrightarrow> sched_ok (enqueue cb s)"
  by (simp add: sched_ok_def enqueue_def Let_def split: if_splits)

lemma sched_ok_microtask: "sched_ok s \<Longrightarrow> sched_ok (microtask run_callback s)"
  by (simp add: sched_ok_def microtask_def doCallback_def Let_def sched_for_of split: if_splits)

lemma microtask_ran:
  assumes "sched_ok s" "microtasks s \<noteq> 0"
  shows "microtask run_callback s =
    for_of run_callback (callbacks s) (s\<lparr>microtasks := 0, callbacks := [], hasPendingCallback := False\<rparr>)"
  using assms by (simp add: sched_ok_def microtask_def doCallback_def Let_def split: if_splits)

lemma sched_ok_step: "sched_ok s \<Longrightarrow> sched_ok (step ev s)"
proof (cases ev)
  case (Deliver h i d)
  assume "sched_ok s"
  then have "sched_ok (s\<lparr>hooks := f\<rparr>)" for f by (simp add: sched_ok_def)
  with \<open>sched_ok s\<close> show ?thesis
    by (simp add: Deliver onData_def Let_def sched_ok_enqueue split: option.splits)
qed (simp_all add: sched_ok_def sched_commit sched_unmount sched_ok_microtask [unfolded sched_ok_def])

lemma for_of_throw:
  assumes "run cb (for_of run before s) = (Some e, s')"
  shows "for_of run (before @ cb # after) s = for_of run after (s'\<lparr>console := console s' @ [e]\<rparr>)"
  using assms by (simp add: for_of_append)

lemma sched_ok_for_of:
  assumes "\<forall>cb t. sched_ok t \<longrightarrow> sched_ok (snd (run cb t))" "sched_ok s"
  shows "sched_ok (for_of run cbs s)"
  using assms(2)
proof (induction cbs arbitrary: s)
  case Nil
  then show ?case by simp
next
  case (Cons cb cbs)
  obtain r s' where r: "run cb s = (r, s')" by (cases "run cb s")
  have ok: "sched_ok s'" using assms(1) Cons.prems r by (metis snd_conv)
  then have "sched_ok (s'\<lparr>console := console s' @ [e]\<rparr>)" for e
    by (simp add: sched_ok_def)
  with ok show ?case by (cases r) (simp_all add: r Cons.IH)
qed

lemma sched_ok_doCallback:
  assumes "\<forall>cb t. sched_ok t \<longrightarrow> sched_ok (snd (run cb t))" "microtasks s = 0"
  shows "sched_ok (doCallback run s)"
  unfolding doCallback_def Let_def
  by (rule sched_ok_for_of [OF assms(1)]) (simp add: sched_ok_def assms(2))

lemma for_of_reenqueue:
  "callbacks (for_of (\<lambda>cb t. (None, enqueue (f cb) t)) cbs s) = callbacks s @ map f cbs
   \<and> hasPendingCallback (for_of (\<lambda>cb t. (None, enqueue (f cb) t)) cbs s) = (hasPendingCallback s \<or> cbs \<noteq> [])
   \<and> microtasks (for_of (\<lambda>cb t. (None, enqueue (f cb) t)) cbs s)
       = microtasks s + (if hasPendingCallback s \<or> cbs = [] then 0 else 1)"
proof (induction cbs arbitrary: s)
  case Nil
  show ?case by simp
next
  case (Cons cb cbs)
  show ?case
    by (simp add: Cons.IH) (simp add: enqueue_def Let_def)
qed

lemma idle_after_microtask:
  assumes "sched_ok s"
  shows "idle (microtask run_callback s)"
proof (cases "microtasks s = 0")
  case True
  with assms show ?thesis by (simp add: microtask_def idle_def sched_ok_def split: if_splits)
next
  case False
  show ?thesis
    by (simp add: microtask_ran [OF assms False] idle_def sched_for_of)
qed


section \<open>Generations and liveness along a run\<close>

lemma hook_inv_init: "hook_inv init_hook"
  by (simp add: hook_inv_def init_hook_def)

lemma hook_inv_prev: "hook_inv (hk\<lparr>prevSnapshotRef := d\<rparr>) = hook_inv hk"
  by (simp add: hook_inv_def)

lemma hook_inv_snapshot: "hook_inv (hk\<lparr>snapshot := d\<rparr>) = hook_inv hk"
  by (simp add: hook_inv_def)

lemma cleanup_subs:
  assumes "hook_inv hk" "cleanupFn hk = Some (i, k)"
  shows "\<forall>j < length (subs (cleanup i k hk)). \<not> isMounted (subs (cleanup i k hk) ! j)"
    and "\<forall>j < length (subs hk). currentGen (subs (cleanup i k hk) ! j) = currentGen (subs hk ! j)"
  using assms by (auto simp: hook_inv_def cleanup_def Let_def nth_list_update)

lemma hook_inv_unmounted:
  assumes "hook_inv hk" "cleanupFn hk = Some (i, k)"
  shows "hook_inv ((cleanup i k hk)\<lparr>cleanupFn := None\<rparr>)"
  using assms cleanup_subs [OF assms]
  by (simp add: hook_inv_def cleanup_fields)

lemma hook_inv_effect_unmounted:
  assumes gens: "\<forall>j < length (subs hk). currentGen (subs hk ! j) \<le> generationRef hk"
    and lt: "generationRef hk < 2 ^ 53 \<longrightarrow>
        (\<forall>j. Suc j < length (subs hk) \<longrightarrow> currentGen (subs hk ! j) < generationRef hk)"
    and unm: "\<forall>j < length (subs hk). \<not> isMounted (subs hk ! j)"
  shows "hook_inv (effect c snap hk)"
proof (cases "absent (source_arg c)")
  case True
  with assms show ?thesis by (simp add: hook_inv_def effect_def Let_def)
next
  case False
  let ?g = "increment (generationRef hk)"
  have a: "\<forall>j < length (subs hk). currentGen (subs hk ! j) \<le> ?g"
    using gens increment_ge [of "generationRef hk"] by (meson le_trans)
  have b: "?g < 2 ^ 53 \<longrightarrow> (\<forall>j < length (subs hk). currentGen (subs hk ! j) < ?g)"
    using gens increment_less [of "generationRef hk"] by (meson le_less_trans)
  from False a b unm show ?thesis
    by (auto simp: hook_inv_def effect_def Let_def nth_append less_Suc_eq)
qed

lemma hook_inv_commit:
  assumes "hook_inv hk"
  shows "hook_inv (effect c snap (case cleanupFn hk of None \<Rightarrow> hk | Some (i, keep) \<Rightarrow> cleanup i keep hk))"
proof (cases "cleanupFn hk")
  case None
  with assms show ?thesis
    by (intro hook_inv_effect_unmounted) (auto simp: hook_inv_def)
next
  case (Some p)
  obtain i k where p: "p = (i, k)" by (cases p)
  note cf = Some [unfolded p]
  show ?thesis
    unfolding Some p option.case prod.case
  proof (rule hook_inv_effect_unmounted)
    show "\<forall>j<length (subs (cleanup i k hk)). currentGen (subs (cleanup i k hk) ! j) \<le> generationRef (cleanup i k hk)"
      using assms cleanup_subs(2) [OF assms cf] by (simp add: cleanup_fields hook_inv_def)
    show "generationRef (cleanup i k hk) < 2 ^ 53 \<longrightarrow>
      (\<forall>j. Suc j < length (subs (cleanup i k hk)) \<longrightarrow> currentGen (subs (cleanup i k hk) ! j) < generationRef (cleanup i k hk))"
      using assms cleanup_subs(2) [OF assms cf] by (simp add: cleanup_fields hook_inv_def)
    show "\<forall>j<length (subs (cleanup i k hk)). \<not> isMounted (subs (cleanup i k hk) ! j)"
      using cleanup_subs(1) [OF assms cf] .
  qed
qed

lemma hook_inv_step:
  assumes "\<forall>h. hook_inv (hooks s h)"
  shows "hook_inv (hooks (step ev s) h)"
proof (cases ev)
  case (Commit h' c)
  then show ?thesis using assms by (simp add: hooks_commit hook_inv_commit)
next
  case (Deliver h' i d)
  then show ?thesis using assms by (simp add: hooks_onData hook_inv_prev)
next
  case Microtask
  obtain v where "hooks (microtask run_callback s) h = (hooks s h)\<lparr>snapshot := v\<rparr>"
    using hooks_microtask by blast
  with Microtask assms show ?thesis by (simp add: hook_inv_snapshot)
next
  case (Unmount h')
  then show ?thesis using assms
    by (auto simp: hooks_unmount hook_inv_unmounted split: option.splits)
qed

lemma cb_ok_step:
  assumes "sched_ok s" "cb_ok s"
  shows "cb_ok (step ev s)"
proof (cases ev)
  case (Commit h c)
  have "length (subs (hooks s h')) \<le> length (subs (hooks (commit h c s) h'))" for h'
    by (auto simp: hooks_commit effect_def Let_def cleanup_fields split: option.splits)
  with assms(2) show ?thesis
    unfolding Commit cb_ok_def step.simps sched_commit by (meson less_le_trans)
next
  case (Deliver h i d)
  have "nth_opt xs i = Some x \<Longrightarrow> i < length xs" for xs :: "subscription list" and x
    by (simp add: nth_opt_eq split: if_splits)
  with assms(2) show ?thesis
    unfolding Deliver cb_ok_def
    by (auto simp: onData_def enqueue_def Let_def split: option.splits)
next
  case Microtask
  show ?thesis
  proof (cases "microtasks s = 0")
    case True
    with assms(2) show ?thesis by (simp add: Microtask microtask_def)
  next
    case False
    then show ?thesis
      by (simp add: Microtask microtask_ran [OF assms(1)] cb_ok_def sched_for_of)
  qed
next
  case (Unmount h)
  have "length (subs (hooks (unmount h s) h')) = length (subs (hooks s h'))" for h'
    by (simp add: hooks_unmount cleanup_fields split: option.splits)
  with assms(2) show ?thesis
    by (simp add: Unmount cb_ok_def sched_unmount)
qed

lemma world_inv_step: "world_inv s \<Longrightarrow> world_inv (step ev s)"
  unfolding world_inv_def using sched_ok_step cb_ok_step hook_inv_step by blast

lemma world_inv_run_events: "world_inv s \<Longrightarrow> world_inv (run_events evs s)"
  by (induction evs arbitrary: s) (simp_all add: world_inv_step)

lemma world_inv_init: "world_inv init_world"
  by (simp add: world_inv_def sched_ok_def cb_ok_def init_world_def hook_inv_init)

lemma world_inv_reachable: "world_inv (run_events evs init_world)"
  by (simp add: world_inv_run_events world_inv_init)

lemma active_sub:
  assumes "world_inv s" "cleanupFn (hooks s h) = Some (i, keep)"
  shows "nth_opt (subs (hooks s h)) i = Some (subs (hooks s h) ! i)"
    and "isMounted (subs (hooks s h) ! i)"
    and "currentGen (subs (hooks s h) ! i) = generationRef (hooks s h)"
    and "Suc i = length (subs (hooks s h))"
proof -
  have "hook_inv (hooks s h)" using assms(1) by (simp add: world_inv_def)
  with assms(2) show "isMounted (subs (hooks s h) ! i)"
    "currentGen (subs (hooks s h) ! i) = generationRef (hooks s h)"
    "Suc i = length (subs (hooks s h))"
    by (auto simp: hook_inv_def)
  then show "nth_opt (subs (hooks s h)) i = Some (subs (hooks s h) ! i)"
    by (simp add: nth_opt_eq)
qed

lemma for_of_last:
  assumes "nth_opt (subs (hooks s (cb_hook cb))) (cb_sub cb) = Some sub" "isMounted sub"
  shows "hooks (for_of run_callback (cbs @ [cb]) s) (cb_hook cb)
     = (hooks (for_of run_callback cbs s) (cb_hook cb))\<lparr>snapshot := cb_data cb\<rparr>"
proof -
  have "nth_opt (subs (hooks (for_of run_callback cbs s) (cb_hook cb))) (cb_sub cb) = Some sub"
    using assms(1) by (simp add: subs_for_of)
  with assms(2) show ?thesis
    by (simp add: for_of_append for_of_run_callback hooks_run_callback del: for_of.simps(2))
qed

lemma deliver_applied:
  assumes "world_inv s" "cleanupFn (hooks s h) = Some (i, keep)"
  shows "hooks (run_events [Deliver h i d, Microtask] s) h =
     (hooks s h)\<lparr>prevSnapshotRef := d, snapshot := d\<rparr>"
proof -
  note act = active_sub [OF assms]
  let ?cb = "\<lparr>cb_hook = h, cb_sub = i, cb_data = d\<rparr>"
  let ?s0 = "s\<lparr>hooks := (hooks s)(h := (hooks s h)\<lparr>prevSnapshotRef := d\<rparr>)\<rparr>"
  let ?s1 = "onData h i d s"
  have s1: "?s1 = enqueue ?cb ?s0"
    using act by (simp add: onData_accepted)
  have "world_inv ?s1" using world_inv_step [OF assms(1), of "Deliver h i d"] by simp
  then have ok: "sched_ok ?s1" by (simp add: world_inv_def)
  have pend: "hasPendingCallback ?s1" "callbacks ?s1 = callbacks s @ [?cb]"
    by (simp_all add: s1 enqueue_def Let_def)
  with ok have m: "microtasks ?s1 \<noteq> 0" by (simp add: sched_ok_def)
  let ?s2 = "?s1\<lparr>microtasks := 0, callbacks := [], hasPendingCallback := False\<rparr>"
  have h2: "hooks ?s2 = hooks ?s0" by (simp add: s1 hooks_enqueue)
  have sub: "nth_opt (subs (hooks ?s2 (cb_hook ?cb))) (cb_sub ?cb) = Some (subs (hooks s h) ! i)"
    using act(1) by (simp add: h2)
  obtain v where v: "hooks (for_of run_callback (callbacks s) ?s2) h = (hooks ?s2 h)\<lparr>snapshot := v\<rparr>"
    using hooks_for_of by blast
  have "hooks (microtask run_callback ?s1) h
      = (hooks (for_of run_callback (callbacks s) ?s2) h)\<lparr>snapshot := d\<rparr>"
    using for_of_last [OF sub act(2), of "callbacks s"]
    by (simp add: microtask_ran [OF ok m] pend)
  then show ?thesis by (simp add: v h2)
qed

lemma for_of_unmounted:
  assumes "\<forall>cb \<in> set cbs. cb_hook cb = h \<longrightarrow>
      (\<forall>sub. nth_opt (subs (hooks s h)) (cb_sub cb) = Some sub \<longrightarrow> \<not> isMounted sub)"
  shows "hooks (for_of run_callback cbs s) h = hooks s h"
  using assms
proof (induction cbs arbitrary: s)
  case Nil
  show ?case by simp
next
  case (Cons cb cbs)
  have one: "hooks (snd (run_callback cb s)) h = hooks s h"
    using Cons.prems by (auto simp: hooks_run_callback)
  have "hooks (for_of run_callback cbs (snd (run_callback cb s))) h = hooks (snd (run_callback cb s)) h"
    using Cons.prems by (intro Cons.IH) (simp add: one)
  then show ?case by (simp add: for_of_run_callback one del: for_of.simps(2))
qed

lemma microtask_unmounted:
  assumes "\<forall>j < length (subs (hooks s h)). \<not> isMounted (subs (hooks s h) ! j)"
  shows "hooks (microtask run_callback s) h = hooks s h"
proof (cases "microtasks s = 0")
  case True
  then show ?thesis by (simp add: microtask_def)
next
  case False
  let ?s0 = "s\<lparr>microtasks := microtasks s - 1, callbacks := [], hasPendingCallback := False\<rparr>"
  have "\<forall>cb \<in> set (callbacks s). cb_hook cb = h \<longrightarrow>
      (\<forall>sub. nth_opt (subs (hooks ?s0 h)) (cb_sub cb) = Some sub \<longrightarrow> \<not> isMounted sub)"
    using assms by (auto simp: nth_opt_eq split: if_splits)
  then show ?thesis
    using False for_of_unmounted [of "callbacks s" h ?s0]
    by (simp add: microtask_def doCallback_def Let_def)
qed


section \<open>Waiting for a new subscription\<close>

lemma settled_step:
  assumes "settled h n s" "quiet h n ev"
  shows "settled h n (step ev s) \<and> snapshot (hooks (step ev s) h) = snapshot (hooks s h)"
proof (cases ev)
  case (Commit h' c)
  with assms show ?thesis by (simp add: settled_def hooks_commit sched_commit)
next
  case (Deliver h' i d)
  with assms show ?thesis
    by (auto simp: settled_def hooks_onData onData_def enqueue_def Let_def split: option.splits)
next
  case Microtask
  show ?thesis
  proof (cases "microtasks s = 0")
    case True
    with assms Microtask show ?thesis by (simp add: microtask_def)
  next
    case False
    let ?s0 = "s\<lparr>microtasks := microtasks s - 1, callbacks := [], hasPendingCallback := False\<rparr>"
    have m: "microtask run_callback s = for_of run_callback (callbacks s) ?s0"
      using False by (simp add: microtask_def doCallback_def Let_def)
    have "\<forall>cb \<in> set (callbacks s). cb_hook cb = h \<longrightarrow>
      (\<forall>sub. nth_opt (subs (hooks ?s0 h)) (cb_sub cb) = Some sub \<longrightarrow> \<not> isMounted sub)"
      using assms(1) by (auto simp: settled_def nth_opt_eq split: if_splits)
    then have "hooks (microtask run_callback s) h = hooks s h"
      unfolding m using for_of_unmounted [of "callbacks s" h ?s0] by simp
    moreover have "callbacks (microtask run_callback s) = []"
      unfolding m by (simp add: sched_for_of)
    ultimately show ?thesis using assms(1) Microtask by (simp add: settled_def)
  qed
next
  case (Unmount h')
  with assms show ?thesis by (simp add: settled_def hooks_unmount sched_unmount)
qed

lemma settled_run_events:
  assumes "settled h n s" "list_all (quiet h n) evs"
  shows "snapshot (hooks (run_events evs s) h) = snapshot (hooks s h)"
  using assms
proof (induction evs arbitrary: s)
  case Nil
  show ?case by simp
next
  case (Cons ev evs)
  then show ?case using settled_step [of h n s ev] by simp
qed

lemma settled_commit:
  assumes "world_inv s"
  shows "settled h (length (subs (hooks s h))) (commit h c s)"
proof -
  have inv: "hook_inv (hooks s h)" and cb: "cb_ok s"
    using assms by (simp_all add: world_inv_def)
  let ?hk1 = "case cleanupFn (hooks s h) of None \<Rightarrow> hooks s h | Some (i, keep) \<Rightarrow> cleanup i keep (hooks s h)"
  have len: "length (subs ?hk1) = length (subs (hooks s h))"
    by (simp add: cleanup_fields split: option.splits)
  have unm: "\<forall>j < length (subs ?hk1). \<not> isMounted (subs ?hk1 ! j)"
  proof (cases "cleanupFn (hooks s h)")
    case None
    with inv show ?thesis by (auto simp: hook_inv_def)
  next
    case (Some p)
    obtain i k where "p = (i, k)" by (cases p)
    with Some cleanup_subs(1) [OF inv, of i k] show ?thesis by simp
  qed
  have "\<forall>j < length (subs (effect c v ?hk1)). j \<noteq> length (subs ?hk1)
      \<longrightarrow> \<not> isMounted (subs (effect c v ?hk1) ! j)" for v
    using unm by (auto simp: effect_def Let_def nth_append)
  moreover have "\<forall>cb \<in> set (callbacks s). cb_hook cb = h \<longrightarrow> cb_sub cb \<noteq> length (subs (hooks s h))"
    using cb by (auto simp: cb_ok_def)
  ultimately show ?thesis
    by (simp add: settled_def hooks_commit sched_commit len)
qed




lemma kept_by_snapshot:
  assumes "world_inv s" "\<forall>i. cleanupFn (hooks s h) \<noteq> Some (i, False)"
    and "list_all (quiet h (length (subs (hooks s h)))) evs"
  shows "snapshot (hooks (run_events evs (commit h c s)) h) = snapshot (hooks s h)"
proof -
  have "snapshot (hooks (commit h c s) h) = snapshot (hooks s h)"
    using assms(2) by (auto simp: snapshot_commit split: option.splits)
  then show ?thesis
    using settled_run_events [OF settled_commit [OF assms(1)] assms(3)] by simp
qed



section \<open>The subscription last set up\<close>

lemma last_setup_snoc:
  "last_setup h (evs @ [ev]) =
     (case ev of
        Commit h' c \<Rightarrow> if h' = h \<and> \<not> absent (source_arg c) then Some (keepPreviousData c) else last_setup h evs
      | _ \<Rightarrow> last_setup h evs)"
  by (induction evs) (auto split: option.splits event.splits)

lemma kept_inv_step:
  assumes "hook_inv (hooks s h)" "kept_inv setup (hooks s h)"
  shows "kept_inv
     (case ev of
        Commit h' c \<Rightarrow> if h' = h \<and> \<not> absent (source_arg c) then Some (keepPreviousData c) else setup
      | _ \<Rightarrow> setup)
     (hooks (step ev s) h)"
proof (cases ev)
  case (Commit h' c)
  with assms(2) show ?thesis
    by (auto simp: kept_inv_def hooks_commit effect_def Let_def cleanup_fields split: option.splits)
next
  case (Deliver h' i d)
  with assms(2) show ?thesis by (auto simp: kept_inv_def hooks_onData split: option.splits)
next
  case Microtask
  show ?thesis
  proof (cases "cleanupFn (hooks s h)")
    case None
    with assms(1) have "\<forall>j < length (subs (hooks s h)). \<not> isMounted (subs (hooks s h) ! j)"
      by (auto simp: hook_inv_def)
    with assms(2) Microtask show ?thesis by (simp add: microtask_unmounted)
  next
    case (Some p)
    obtain v where "hooks (microtask run_callback s) h = (hooks s h)\<lparr>snapshot := v\<rparr>"
      using hooks_microtask by blast
    with assms(2) Some Microtask show ?thesis by (simp add: kept_inv_def)
  qed
next
  case (Unmount h')
  with assms(2) show ?thesis
    by (auto simp: kept_inv_def hooks_unmount cleanup_fields split: option.splits)
qed

lemma kept_inv_run_events:
  assumes "world_inv s0" "kept_inv None (hooks s0 h)"
  shows "kept_inv (last_setup h evs) (hooks (run_events evs s0) h)"
proof (induction evs rule: rev_induct)
  case Nil
  show ?case using assms(2) by simp
next
  case (snoc ev evs)
  have "hook_inv (hooks (run_events evs s0) h)"
    using world_inv_run_events [OF assms(1), of evs] by (simp add: world_inv_def)
  from kept_inv_step [OF this snoc.IH, of ev] show ?case
    by (simp add: run_events_append last_setup_snoc)
qed

lemma kept_inv_default:
  assumes "kept_inv setup hk" "setup \<noteq> Some True" "absent (source_arg c)" "\<not> keepPreviousData c"
  shows "useSubscribe c hk = def c"
proof (cases "cleanupFn hk")
  case None
  with assms show ?thesis by (simp add: kept_inv_def useSubscribe_def)
next
  case (Some p)
  with assms have "hasTransitioned c hk"
    by (auto simp: kept_inv_def hasTransitioned_def)
  with assms(4) show ?thesis by (simp add: useSubscribe_def)
qed

section \<open>Where the values come from\<close>

lemma data_inv_for_of:
  assumes "\<forall>cb \<in> set cbs. cb_data cb \<in> D (cb_hook cb)"
    and "\<forall>h. snapshot (hooks s h) \<in> D h \<and> prevSnapshotRef (hooks s h) \<in> D h"
  shows "\<forall>h. snapshot (hooks (for_of run_callback cbs s) h) \<in> D h
           \<and> prevSnapshotRef (hooks (for_of run_callback cbs s) h) \<in> D h"
  using assms
proof (induction cbs arbitrary: s)
  case Nil
  then show ?case by simp
next
  case (Cons cb cbs)
  have "\<forall>h. snapshot (hooks (snd (run_callback cb s)) h) \<in> D h
      \<and> prevSnapshotRef (hooks (snd (run_callback cb s)) h) \<in> D h"
    using Cons.prems by (simp add: hooks_run_callback)
  with Cons show ?case by (simp add: for_of_run_callback del: for_of.simps(2))
qed

lemma data_inv_step:
  assumes "data_inv D s" "\<forall>h. Undefined \<in> D h" "\<forall>h i d. ev = Deliver h i d \<longrightarrow> d \<in> D h"
  shows "data_inv D (step ev s)"
proof -
  have old: "snapshot (hooks s h) \<in> D h" "prevSnapshotRef (hooks s h) \<in> D h" for h
    using assms(1) by (simp_all add: data_inv_def)
  have cbs: "\<forall>cb \<in> set (callbacks s). cb_data cb \<in> D (cb_hook cb)"
    using assms(1) by (simp add: data_inv_def)
  have und: "Undefined \<in> D h" for h using assms(2) by simp
  show ?thesis
  proof (cases ev)
    case (Commit h c)
    have "snapshot (hooks (commit h c s) h') \<in> D h'" for h'
      using commit_values(1) [of h c s h'] old(1) [of h'] und [of h'] by metis
    moreover have "prevSnapshotRef (hooks (commit h c s) h') \<in> D h'" for h'
      using commit_values(2) [of h c s h'] old [of h'] und [of h'] by metis
    ultimately show ?thesis using cbs by (simp add: Commit data_inv_def sched_commit)
  next
    case (Deliver h i d)
    then have d: "d \<in> D h" using assms(3) by simp
    have "prevSnapshotRef (hooks (onData h i d s) h') \<in> D h'" for h'
      using onData_values(2) [of h i d s h'] old(2) [of h'] d by metis
    moreover have "\<forall>cb \<in> set (callbacks (onData h i d s)). cb_data cb \<in> D (cb_hook cb)"
      using onData_values(3) [of h i d s] cbs d by auto
    ultimately show ?thesis using old(1) by (simp add: Deliver data_inv_def onData_values(1))
  next
    case Microtask
    show ?thesis
    proof (cases "microtasks s = 0")
      case True
      with assms(1) Microtask show ?thesis by (simp add: microtask_def)
    next
      case False
      let ?s0 = "s\<lparr>microtasks := microtasks s - 1, callbacks := [], hasPendingCallback := False\<rparr>"
      have m: "microtask run_callback s = for_of run_callback (callbacks s) ?s0"
        using False by (simp add: microtask_def doCallback_def Let_def)
      have "\<forall>h. snapshot (hooks (for_of run_callback (callbacks s) ?s0) h) \<in> D h
             \<and> prevSnapshotRef (hooks (for_of run_callback (callbacks s) ?s0) h) \<in> D h"
        using cbs old by (intro data_inv_for_of) simp_all
      then show ?thesis
        by (simp add: Microtask m data_inv_def sched_for_of)
    qed
  next
    case (Unmount h)
    have "snapshot (hooks (unmount h s) h') \<in> D h'" for h'
      using unmount_values(1) [of h s h'] old(1) [of h'] und [of h'] by metis
    moreover have "prevSnapshotRef (hooks (unmount h s) h') \<in> D h'" for h'
      using unmount_values(2) [of h s h'] old(2) [of h'] und [of h'] by metis
    ultimately show ?thesis using cbs by (simp add: Unmount data_inv_def sched_unmount)
  qed
qed

lemma data_inv_mono:
  assumes "data_inv D s" "\<And>h x. x \<in> D h \<Longrightarrow> x \<in> D' h"
  shows "data_inv D' s"
  using assms unfolding data_inv_def by blast

lemma data_inv_run_events:
  assumes "data_inv (\<lambda>h. {Undefined}) s0"
  shows "data_inv (\<lambda>h. insert Undefined (set (deliveries h evs))) (run_events evs s0)"
proof (induction evs rule: rev_induct)
  case Nil
  show ?case using assms by simp
next
  case (snoc ev evs)
  have "data_inv (\<lambda>h. insert Undefined (set (deliveries h (evs @ [ev])))) (run_events evs s0)"
    using snoc.IH by (rule data_inv_mono) (auto simp: deliveries_snoc)
  then have "data_inv (\<lambda>h. insert Undefined (set (deliveries h (evs @ [ev]))))
      (step ev (run_events evs s0))"
    by (rule data_inv_step) (auto simp: deliveries_snoc)
  then show ?case by (simp add: run_events_append)
qed

lemma data_inv_reachable:
  "data_inv (\<lambda>h. insert Undefined (set (deliveries h evs))) (run_events evs init_world)"
  by (rule data_inv_run_events) (simp add: data_inv_def init_world_def init_hook_def)

section \<open>Single operations\<close>

lemma commit_absent:
  assumes "absent (source_arg c)"
  shows "hooks (commit h c s) h =
     (case cleanupFn (hooks s h) of None \<Rightarrow> hooks s h | Some (i, keep) \<Rightarrow> cleanup i keep (hooks s h))
       \<lparr>hasRunEffectRef := True, prevRRef := source_arg c, prevDepsRef := dependencies c,
        cleanupFn := None\<rparr>"
  using assms by (simp add: hooks_commit effect_def Let_def)

lemma useSubscribe_cases:
  "useSubscribe c hk = def c
   \<or> useSubscribe c hk \<noteq> Undefined \<and> (useSubscribe c hk = snapshot hk \<or> useSubscribe c hk = prevSnapshotRef hk)"
  by (simp add: useSubscribe_def)

lemma render_delivered:
  assumes "data_inv (\<lambda>h. insert Undefined (A h)) s"
  shows "render h c s = def c \<or> render h c s \<noteq> Undefined \<and> render h c s \<in> A h"
proof -
  have "snapshot (hooks s h) \<in> insert Undefined (A h)"
    "prevSnapshotRef (hooks s h) \<in> insert Undefined (A h)"
    using assms by (simp_all add: data_inv_def)
  with useSubscribe_cases [of c "hooks s h"]
  show ?thesis unfolding render_def by auto
qed

lemma hasTransitioned_after:
  assumes "last_commit h evs = Some c0"
  shows "hasTransitioned c (hooks (run_events evs s) h)
     \<longleftrightarrow> source_arg c \<noteq> source_arg c0 \<or> dependencies c \<noteq> dependencies c0"
proof -
  have "refs (hooks (run_events evs s) h) = (True, source_arg c0, dependencies c0)"
    using assms by (simp add: refs_run_events)
  then show ?thesis
    by (simp add: refs_def hasTransitioned_def depsChanged_iff)
qed

text \<open>The definitions a concrete run unfolds.\<close>

lemmas run_defs =
  commit_def effect_def cleanup_def onData_def enqueue_def microtask_def doCallback_def
  run_callback_def setSnapshot_def unmount_def init_world_def init_hook_def increment_def
  destructure_def example_options_def call_A_def call_B_def call_C_def call_none_def call_none_reset_def call_A_reset_def
  call_B_reset_def page0_def Let_def

lemmas render_defs = render_def useSubscribe_def hasTransitioned_def depsChanged_def

section \<open>The properties\<close>

text \<open>
  C1. Stale rejection. In every state the page can reach, a subscription of instance \<open>h\<close>
  that is not the last one created (a later run of the effect superseded it and
  incremented the generation counter) cannot change anything: its \<open>onData\<close> returns at
  the generation check, so the state, and with it the value any render returns, stays as
  it was. The counter is a number of the host language and counts exactly below \<open>2^53\<close>.
\<close>

theorem stale_rejection:
  assumes "s = run_events evs init_world"
    and "Suc i < length (subs (hooks s h))"
    and "generationRef (hooks s h) < 2 ^ 53"
  shows "onData h i d s = s \<and> render h c (step (Deliver h i d) s) = render h c s"
proof -
  have "hook_inv (hooks s h)"
    using assms(1) by (simp add: world_inv_reachable [unfolded world_inv_def])
  with assms(2,3) have "currentGen (subs (hooks s h) ! i) < generationRef (hooks s h)"
    by (simp add: hook_inv_def)
  moreover have "nth_opt (subs (hooks s h)) i = Some (subs (hooks s h) ! i)"
    using assms(2) by (simp add: nth_opt_eq)
  ultimately have "onData h i d s = s"
    by (simp add: onData_def)
  then show ?thesis by simp
qed

theorem stale_rejection_witness:
  "Suc 0 < length (subs (hooks (run_events [Commit 0 call_A, Commit 0 call_B] page0) 0))
   \<and> generationRef (hooks (run_events [Commit 0 call_A, Commit 0 call_B] page0) 0) < 2 ^ 53
   \<and> onData 0 0 (Val ''late'') (run_events [Commit 0 call_A, Commit 0 call_B] page0)
       = run_events [Commit 0 call_A, Commit 0 call_B] page0
   \<and> render 0 call_B (step (Deliver 0 0 (Val ''late'')) (run_events [Commit 0 call_A, Commit 0 call_B] page0))
       = render 0 call_B (run_events [Commit 0 call_A, Commit 0 call_B] page0)"
proof -
  have reach: "run_events [Commit 0 call_A, Commit 0 call_B] page0
      = run_events [Commit 0 call_A, Commit 0 call_B] init_world"
    by (simp only: page0_def)
  have old: "Suc 0 < length (subs (hooks (run_events [Commit 0 call_A, Commit 0 call_B] page0) 0))"
    by (simp add: run_defs)
  have gen: "generationRef (hooks (run_events [Commit 0 call_A, Commit 0 call_B] page0) 0) < 2 ^ 53"
    by (simp add: run_defs)
  from stale_rejection [OF reach old gen] old gen show ?thesis by blast
qed




text \<open>
  C3. Reset. In every reachable state in which the effect of instance \<open>h\<close> last ran for
  the arguments \<open>c0\<close>, a render whose source or dependency list differs from those of \<open>c0\<close>
  and that passes \<open>keepPreviousData = false\<close> returns the default, whatever the snapshot
  holds at that moment. If the subscription torn down was set up without retention as
  well, the renders after the new setup keep returning the default until the
  new subscription delivers.
\<close>

theorem reset_on_transition:
  assumes "s = run_events evs init_world"
    and "last_commit h evs = Some c0"
    and "source_arg c \<noteq> source_arg c0 \<or> dependencies c \<noteq> dependencies c0"
    and "\<not> keepPreviousData c"
  shows "render h c s = def c
       \<and> (cleanupFn (hooks s h) = Some (i, False) \<and> \<not> keepPreviousData c'
            \<and> list_all (quiet h (length (subs (hooks s h)))) evs'
          \<longrightarrow> render h c' (run_events evs' (commit h c s)) = def c')"
proof -
  have "hasTransitioned c (hooks s h)"
    using assms(1,3) by (simp add: hasTransitioned_after [OF assms(2)])
  with assms(4) have 1: "render h c s = def c"
    by (simp add: render_def useSubscribe_def)
  have 2: "render h c' (run_events evs' (commit h c s)) = def c'"
    if a: "cleanupFn (hooks s h) = Some (i, False)" and b: "\<not> keepPreviousData c'"
      and q: "list_all (quiet h (length (subs (hooks s h)))) evs'"
  proof -
    have inv: "world_inv s" using assms(1) by (simp add: world_inv_reachable)
    have "snapshot (hooks (commit h c s) h) = Undefined"
      using a by (simp add: snapshot_commit)
    then have "snapshot (hooks (run_events evs' (commit h c s)) h) = Undefined"
      using settled_run_events [OF settled_commit [OF inv] q] by simp
    with b show ?thesis by (simp add: render_def useSubscribe_def)
  qed
  from 1 2 show ?thesis by blast
qed

theorem reset_on_transition_witness:
  "last_commit 0 [Commit 0 call_A_reset, Deliver 0 0 (Val ''a''), Microtask] = Some call_A_reset
   \<and> source_arg call_B_reset \<noteq> source_arg call_A_reset
   \<and> \<not> keepPreviousData call_B_reset
   \<and> snapshot (hooks (run_events [Commit 0 call_A_reset, Deliver 0 0 (Val ''a''), Microtask] page0) 0) = Val ''a''
   \<and> render 0 call_B_reset (run_events [Commit 0 call_A_reset, Deliver 0 0 (Val ''a''), Microtask] page0)
       = Val ''default''
   \<and> render 0 call_B_reset
        (run_events [Deliver 0 0 (Val ''late'')]
          (commit 0 call_B_reset (run_events [Commit 0 call_A_reset, Deliver 0 0 (Val ''a''), Microtask] page0)))
       = Val ''default''"
proof -
  let ?evs = "[Commit 0 call_A_reset, Deliver 0 0 (Val ''a''), Microtask]"
  let ?s = "run_events ?evs page0"
  have r: "?s = run_events ?evs init_world" by (simp only: page0_def)
  have l: "last_commit 0 ?evs = Some call_A_reset" by simp
  have d: "source_arg call_B_reset \<noteq> source_arg call_A_reset \<or> dependencies call_B_reset \<noteq> dependencies call_A_reset"
    and d': "source_arg call_B_reset \<noteq> source_arg call_A_reset"
    and k: "\<not> keepPreviousData call_B_reset"
    and v: "def call_B_reset = Val ''default''"
    by (simp_all add: run_defs)
  have c: "cleanupFn (hooks ?s 0) = Some (0, False)"
    and q: "list_all (quiet 0 (length (subs (hooks ?s 0)))) [Deliver 0 0 (Val ''late'')]"
    and sn: "snapshot (hooks ?s 0) = Val ''a''"
    by (simp_all add: run_defs)
  from reset_on_transition [OF r l d k, of 0 call_B_reset "[Deliver 0 0 (Val ''late'')]"] l d' k v c q sn
  show ?thesis by simp
qed

text \<open>
  C4. Batching. In every reachable state at most one flush is queued, and it is queued
  whenever the callback queue is not empty; the microtask that runs it invokes exactly
  the queued callbacks, in the order of the queue, on a state whose queue is already
  empty and whose flag is already reset, and leaves the scheduler idle, so a second
  microtask finds nothing to do. An accepted delivery appends its callback at the end
  of the queue. For any callbacks whatsoever: the loop of \<open>doCallback\<close> runs a queue
  front to back; and if each callback enqueues another one while the flush runs, none of
  the new ones runs in this flush: they form the next queue and one new flush is
  scheduled for them. Render passes are the framework's and are not modelled: all
  \<open>setSnapshot\<close> calls of a tick happen inside that one job.
\<close>

theorem one_flush_per_tick:
  assumes "s = run_events evs init_world"
  shows "microtasks s \<le> 1
       \<and> (callbacks s \<noteq> [] \<longrightarrow> microtasks s = 1)
       \<and> (microtasks s = 1 \<longrightarrow>
            step Microtask s = for_of run_callback (callbacks s)
              (s\<lparr>microtasks := 0, callbacks := [], hasPendingCallback := False\<rparr>))
       \<and> idle (step Microtask s)
       \<and> step Microtask (step Microtask s) = step Microtask s
       \<and> (nth_opt (subs (hooks s h)) i = Some sub \<and> currentGen sub = generationRef (hooks s h) \<longrightarrow>
            callbacks (onData h i d s) = callbacks s @ [\<lparr>cb_hook = h, cb_sub = i, cb_data = d\<rparr>]
            \<and> microtasks (onData h i d s) = 1)
       \<and> for_of run (xs @ ys) t = for_of run ys (for_of run xs t)
       \<and> callbacks (doCallback (\<lambda>cb u. (None, enqueue (f cb) u)) t) = map f (callbacks t)
       \<and> microtasks (doCallback (\<lambda>cb u. (None, enqueue (f cb) u)) t)
           = microtasks t + (if callbacks t = [] then 0 else 1)
       \<and> hasPendingCallback (doCallback (\<lambda>cb u. (None, enqueue (f cb) u)) t) = (callbacks t \<noteq> [])"
proof -
  have inv: "world_inv s" using assms by (simp add: world_inv_reachable)
  then have ok: "sched_ok s" by (simp add: world_inv_def)
  have 1: "microtasks s \<le> 1" "callbacks s \<noteq> [] \<longrightarrow> microtasks s = 1"
    using ok by (auto simp: sched_ok_def split: if_splits)
  have 2: "microtasks s = 1 \<longrightarrow>
            step Microtask s = for_of run_callback (callbacks s)
              (s\<lparr>microtasks := 0, callbacks := [], hasPendingCallback := False\<rparr>)"
    using microtask_ran [OF ok] by simp
  have 3: "idle (step Microtask s)"
    using idle_after_microtask [OF ok] by simp
  then have 4: "step Microtask (step Microtask s) = step Microtask s"
    by (simp add: idle_def microtask_def)
  have 5: "callbacks (onData h i d s) = callbacks s @ [\<lparr>cb_hook = h, cb_sub = i, cb_data = d\<rparr>]
            \<and> microtasks (onData h i d s) = 1"
    if a: "nth_opt (subs (hooks s h)) i = Some sub" "currentGen sub = generationRef (hooks s h)"
  proof -
    have "sched_ok (onData h i d s)"
      using sched_ok_step [OF ok, of "Deliver h i d"] by simp
    moreover have "hasPendingCallback (onData h i d s)"
      "callbacks (onData h i d s) = callbacks s @ [\<lparr>cb_hook = h, cb_sub = i, cb_data = d\<rparr>]"
      by (simp_all add: onData_accepted [OF a] enqueue_def Let_def)
    ultimately show ?thesis by (simp add: sched_ok_def)
  qed
  have 6: "for_of run (xs @ ys) t = for_of run ys (for_of run xs t)"
    by (rule for_of_append)
  have 7: "callbacks (doCallback (\<lambda>cb u. (None, enqueue (f cb) u)) t) = map f (callbacks t)"
    "microtasks (doCallback (\<lambda>cb u. (None, enqueue (f cb) u)) t)
           = microtasks t + (if callbacks t = [] then 0 else 1)"
    "hasPendingCallback (doCallback (\<lambda>cb u. (None, enqueue (f cb) u)) t) = (callbacks t \<noteq> [])"
    by (simp_all add: doCallback_def Let_def for_of_reenqueue)
  from 1 2 3 4 5 6 7 show ?thesis by blast
qed

theorem one_flush_per_tick_witness:
  "microtasks (run_events [Commit 0 call_A, Commit 1 call_B, Deliver 0 0 (Val ''a''), Deliver 1 0 (Val ''b'')] page0) = 1
   \<and> length (callbacks (run_events [Commit 0 call_A, Commit 1 call_B, Deliver 0 0 (Val ''a''), Deliver 1 0 (Val ''b'')] page0)) = 2
   \<and> idle (step Microtask
        (run_events [Commit 0 call_A, Commit 1 call_B, Deliver 0 0 (Val ''a''), Deliver 1 0 (Val ''b'')] page0))
   \<and> snapshot (hooks (step Microtask
        (run_events [Commit 0 call_A, Commit 1 call_B, Deliver 0 0 (Val ''a''), Deliver 1 0 (Val ''b'')] page0)) 0) = Val ''a''
   \<and> snapshot (hooks (step Microtask
        (run_events [Commit 0 call_A, Commit 1 call_B, Deliver 0 0 (Val ''a''), Deliver 1 0 (Val ''b'')] page0)) 1) = Val ''b''"
proof -
  let ?evs = "[Commit 0 call_A, Commit 1 call_B, Deliver 0 0 (Val ''a''), Deliver 1 0 (Val ''b'')]"
  let ?s = "run_events ?evs page0"
  have r: "?s = run_events ?evs init_world" by (simp only: page0_def)
  note th = one_flush_per_tick [OF r]
  have q: "length (callbacks ?s) = 2" by (simp add: run_defs)
  then have "callbacks ?s \<noteq> []" by auto
  with th have 1: "microtasks ?s = 1" by blast
  have 3: "idle (step Microtask ?s)" using th by blast
  have e: "step Microtask ?s = for_of run_callback (callbacks ?s)
              (?s\<lparr>microtasks := 0, callbacks := [], hasPendingCallback := False\<rparr>)"
    using th 1 by blast
  have 4: "snapshot (hooks (step Microtask ?s) 0) = Val ''a''"
    and 5: "snapshot (hooks (step Microtask ?s) 1) = Val ''b''"
    unfolding e by (simp_all add: run_defs)
  from 1 q 3 4 5 show ?thesis by (intro conjI)
qed

text \<open>
  C5. Teardown by an absent source. Take a reachable state in which instance \<open>h\<close> has a
  live subscription \<open>i\<close>, and commit a render whose source is \<open>null\<close> or \<open>undefined\<close>. The
  generation counter keeps its value, subscription \<open>i\<close> is unmounted and the cache is
  cleared. A result \<open>d\<close> delivered by \<open>i\<close> afterwards passes the generation check: it is
  written to the cache and its callback is queued. When the flush runs that callback
  the snapshot is left alone, because \<open>isMounted\<close> is false.
\<close>

theorem absent_source_teardown:
  assumes "s = run_events evs init_world"
    and "cleanupFn (hooks s h) = Some (i, keep)"
    and "absent (source_arg c)"
  shows "generationRef (hooks (commit h c s) h) = generationRef (hooks s h)
       \<and> \<not> isMounted (subs (hooks (commit h c s) h) ! i)
       \<and> prevSnapshotRef (hooks (commit h c s) h) = Undefined
       \<and> prevSnapshotRef (hooks (onData h i d (commit h c s)) h) = d
       \<and> callbacks (onData h i d (commit h c s)) = callbacks s @ [\<lparr>cb_hook = h, cb_sub = i, cb_data = d\<rparr>]
       \<and> snapshot (hooks (run_events [Commit h c, Deliver h i d, Microtask] s) h)
           = snapshot (hooks (commit h c s) h)
       \<and> prevSnapshotRef (hooks (run_events [Commit h c, Deliver h i d, Microtask] s) h) = d"
proof -
  have inv: "world_inv s" using assms(1) by (simp add: world_inv_reachable)
  then have hinv: "hook_inv (hooks s h)" by (simp add: world_inv_def)
  note act = active_sub [OF inv assms(2)]
  let ?s1 = "commit h c s"
  have hk1: "hooks ?s1 h = (cleanup i keep (hooks s h))
       \<lparr>hasRunEffectRef := True, prevRRef := source_arg c, prevDepsRef := dependencies c,
        cleanupFn := None\<rparr>"
    using assms(2) by (simp add: commit_absent [OF assms(3)])
  have len: "length (subs (hooks ?s1 h)) = length (subs (hooks s h))"
    by (simp add: hk1 cleanup_fields)
  have unm: "\<forall>j < length (subs (hooks ?s1 h)). \<not> isMounted (subs (hooks ?s1 h) ! j)"
    using cleanup_subs(1) [OF hinv assms(2)] by (simp add: hk1)
  have i: "i < length (subs (hooks ?s1 h))" using act(4) len by simp
  have gen: "generationRef (hooks ?s1 h) = generationRef (hooks s h)"
    by (simp add: hk1 cleanup_fields)
  have cur: "currentGen (subs (hooks ?s1 h) ! i) = generationRef (hooks ?s1 h)"
    using cleanup_subs(2) [OF hinv assms(2)] act(3,4) by (simp add: hk1 cleanup_fields)
  have nth: "nth_opt (subs (hooks ?s1 h)) i = Some (subs (hooks ?s1 h) ! i)"
    using i by (simp add: nth_opt_eq)
  let ?s2 = "onData h i d ?s1"
  have s2: "?s2 = enqueue \<lparr>cb_hook = h, cb_sub = i, cb_data = d\<rparr>
       (?s1\<lparr>hooks := (hooks ?s1)(h := (hooks ?s1 h)\<lparr>prevSnapshotRef := d\<rparr>)\<rparr>)"
    by (rule onData_accepted [OF nth cur])
  have h2: "hooks ?s2 h = (hooks ?s1 h)\<lparr>prevSnapshotRef := d\<rparr>"
    by (simp add: s2 hooks_enqueue)
  have q2: "callbacks ?s2 = callbacks s @ [\<lparr>cb_hook = h, cb_sub = i, cb_data = d\<rparr>]"
    by (simp add: s2 enqueue_def Let_def sched_commit)
  have "\<forall>j < length (subs (hooks ?s2 h)). \<not> isMounted (subs (hooks ?s2 h) ! j)"
    using unm by (simp add: h2)
  then have h3: "hooks (microtask run_callback ?s2) h = hooks ?s2 h"
    by (rule microtask_unmounted)
  show ?thesis
    using unm i by (simp add: gen h3 h2 q2) (simp add: hk1 cleanup_fields)
qed

theorem absent_source_teardown_witness:
  "cleanupFn (hooks (run_events [Commit 0 call_A_reset] page0) 0) = Some (0, False)
   \<and> absent (source_arg call_none)
   \<and> generationRef (hooks (commit 0 call_none (run_events [Commit 0 call_A_reset] page0)) 0) = 1
   \<and> prevSnapshotRef (hooks (onData 0 0 (Val ''late'') (commit 0 call_none (run_events [Commit 0 call_A_reset] page0))) 0)
       = Val ''late''
   \<and> snapshot (hooks (run_events [Commit 0 call_none, Deliver 0 0 (Val ''late''), Microtask]
         (run_events [Commit 0 call_A_reset] page0)) 0) = Undefined
   \<and> render 0 call_none (run_events [Commit 0 call_none, Deliver 0 0 (Val ''late''), Microtask]
         (run_events [Commit 0 call_A_reset] page0)) = Val ''late''"
proof -
  let ?s = "run_events [Commit 0 call_A_reset] page0"
  have r: "?s = run_events [Commit 0 call_A_reset] init_world" by (simp only: page0_def)
  have c: "cleanupFn (hooks ?s 0) = Some (0, False)"
    and a: "absent (source_arg call_none)"
    and g: "generationRef (hooks ?s 0) = 1"
    and sn: "snapshot (hooks (commit 0 call_none ?s) 0) = Undefined"
    and k: "keepPreviousData call_none"
    by (simp_all add: run_defs)
  from absent_source_teardown [OF r c a, of "Val ''late''"] c a g sn k
  show ?thesis by (simp add: render_def useSubscribe_def)
qed

text \<open>
  C6. Callback failure. For callbacks of any kind: if the callback \<open>cb\<close> of the queue
  throws \<open>e\<close> when its turn comes, \<open>doCallback\<close> appends \<open>e\<close> to the console and goes on
  with the callbacks queued behind \<open>cb\<close>, from the state \<open>cb\<close> left. If moreover every
  callback leaves the scheduler in a consistent state (as those do that do not touch
  it, or only enqueue), the scheduler is consistent after the flush, throw or no throw.
\<close>

theorem callback_failure_isolated:
  assumes "callbacks s = pre @ cb # post"
    and "run cb (for_of run pre (s\<lparr>callbacks := [], hasPendingCallback := False\<rparr>)) = (Some e, s')"
  shows "doCallback run s = for_of run post (s'\<lparr>console := console s' @ [e]\<rparr>)
       \<and> (microtasks s = 0 \<and> (\<forall>cb t. sched_ok t \<longrightarrow> sched_ok (snd (run cb t)))
            \<longrightarrow> sched_ok (doCallback run s))"
proof -
  have "doCallback run s = for_of run (pre @ cb # post) (s\<lparr>callbacks := [], hasPendingCallback := False\<rparr>)"
    by (simp add: doCallback_def Let_def assms(1))
  then have "doCallback run s = for_of run post (s'\<lparr>console := console s' @ [e]\<rparr>)"
    using for_of_throw [where run = run and cb = cb and before = pre and after = post, OF assms(2)]
    by simp
  moreover have "sched_ok (doCallback run s)"
    if "microtasks s = 0" "\<forall>cb t. sched_ok t \<longrightarrow> sched_ok (snd (run cb t))"
    using that by (intro sched_ok_doCallback [rule_format]) auto
  ultimately show ?thesis by blast
qed

theorem callback_failure_isolated_witness:
  "console (doCallback (run_faulty 1 ''boom'')
      ((run_events [Commit 0 call_A, Commit 1 call_A, Commit 2 call_A, Deliver 0 0 (Val ''a''),
                    Deliver 1 0 (Val ''b''), Deliver 2 0 (Val ''c'')] page0)\<lparr>microtasks := 0\<rparr>)) = [''boom'']
   \<and> snapshot (hooks (doCallback (run_faulty 1 ''boom'')
      ((run_events [Commit 0 call_A, Commit 1 call_A, Commit 2 call_A, Deliver 0 0 (Val ''a''),
                    Deliver 1 0 (Val ''b''), Deliver 2 0 (Val ''c'')] page0)\<lparr>microtasks := 0\<rparr>)) 0) = Val ''a''
   \<and> snapshot (hooks (doCallback (run_faulty 1 ''boom'')
      ((run_events [Commit 0 call_A, Commit 1 call_A, Commit 2 call_A, Deliver 0 0 (Val ''a''),
                    Deliver 1 0 (Val ''b''), Deliver 2 0 (Val ''c'')] page0)\<lparr>microtasks := 0\<rparr>)) 2) = Val ''c''
   \<and> sched_ok (doCallback (run_faulty 1 ''boom'')
      ((run_events [Commit 0 call_A, Commit 1 call_A, Commit 2 call_A, Deliver 0 0 (Val ''a''),
                    Deliver 1 0 (Val ''b''), Deliver 2 0 (Val ''c'')] page0)\<lparr>microtasks := 0\<rparr>))"
proof -
  let ?run = "run_faulty 1 ''boom'' :: string callback \<Rightarrow> (nat, nat, string, string) world \<Rightarrow> _"
  let ?s = "(run_events [Commit 0 call_A, Commit 1 call_A, Commit 2 call_A, Deliver 0 0 (Val ''a''),
                    Deliver 1 0 (Val ''b''), Deliver 2 0 (Val ''c'')] page0)\<lparr>microtasks := 0\<rparr>"
  let ?cb0 = "\<lparr>cb_hook = 0, cb_sub = 0, cb_data = Val ''a''\<rparr>"
  let ?cb1 = "\<lparr>cb_hook = 1, cb_sub = 0, cb_data = Val ''b''\<rparr>"
  let ?cb2 = "\<lparr>cb_hook = 2, cb_sub = 0, cb_data = Val ''c''\<rparr>"
  let ?s' = "for_of ?run [?cb0] (?s\<lparr>callbacks := [], hasPendingCallback := False\<rparr>)"
  have q: "callbacks ?s = [?cb0] @ ?cb1 # [?cb2]"
    by (simp add: run_defs)
  have t: "?run ?cb1 ?s' = (Some ''boom'', ?s')"
    by (simp add: run_faulty_def)
  have m: "microtasks ?s = 0" by simp
  have ok: "\<forall>cb t. sched_ok t \<longrightarrow> sched_ok (snd (?run cb t))"
    by (simp add: run_faulty_def sched_ok_def sched_run_callback)
  note th = callback_failure_isolated [where run = "?run" and s = "?s" and pre = "[?cb0]"
      and cb = "?cb1" and post = "[?cb2]" and e = "''boom''" and s' = "?s'", OF q t]
  have e: "doCallback ?run ?s = for_of ?run [?cb2] (?s'\<lparr>console := console ?s' @ [''boom'']\<rparr>)"
    using th by (rule conjunct1)
  have 1: "console (doCallback ?run ?s) = [''boom'']"
    and 2: "snapshot (hooks (doCallback ?run ?s) 0) = Val ''a''"
    and 3: "snapshot (hooks (doCallback ?run ?s) 2) = Val ''c''"
    unfolding e by (simp_all add: run_faulty_def run_defs)
  have 4: "sched_ok (doCallback ?run ?s)"
    using th m ok by blast
  from 1 2 3 4 show ?thesis by (intro conjI)
qed



text \<open>
  C8. Data or default. In every reachable state a render of instance \<open>h\<close> returns the
  default, or a value other than \<open>undefined\<close> that a source delivered to a subscription of
  \<open>h\<close>. A delivery of \<open>undefined\<close> by the live subscription overwrites the cache with
  \<open>undefined\<close>, and once flushed the snapshot is \<open>undefined\<close> too and every render returns
  the default.
\<close>

theorem data_or_default:
  assumes "s = run_events evs init_world"
  shows "(render h c s = def c \<or> render h c s \<noteq> Undefined \<and> render h c s \<in> set (deliveries h evs))
       \<and> (cleanupFn (hooks s h) = Some (i, keep) \<longrightarrow>
            prevSnapshotRef (hooks (onData h i Undefined s) h) = Undefined
            \<and> snapshot (hooks (run_events [Deliver h i Undefined, Microtask] s) h) = Undefined
            \<and> prevSnapshotRef (hooks (run_events [Deliver h i Undefined, Microtask] s) h) = Undefined
            \<and> render h c (run_events [Deliver h i Undefined, Microtask] s) = def c)"
proof -
  have inv: "world_inv s" using assms by (simp add: world_inv_reachable)
  have "data_inv (\<lambda>h. insert Undefined (set (deliveries h evs))) s"
    unfolding assms by (rule data_inv_reachable)
  then have "snapshot (hooks s h) \<in> insert Undefined (set (deliveries h evs))"
    "prevSnapshotRef (hooks s h) \<in> insert Undefined (set (deliveries h evs))"
    by (simp_all add: data_inv_def)
  with useSubscribe_cases [of c "hooks s h"]
  have 1: "render h c s = def c \<or> render h c s \<noteq> Undefined \<and> render h c s \<in> set (deliveries h evs)"
    unfolding render_def by auto
  have 2: "prevSnapshotRef (hooks (onData h i Undefined s) h) = Undefined
            \<and> snapshot (hooks (run_events [Deliver h i Undefined, Microtask] s) h) = Undefined
            \<and> prevSnapshotRef (hooks (run_events [Deliver h i Undefined, Microtask] s) h) = Undefined
            \<and> render h c (run_events [Deliver h i Undefined, Microtask] s) = def c"
    if cf: "cleanupFn (hooks s h) = Some (i, keep)"
  proof -
    note act = active_sub [OF inv cf]
    have "hooks (run_events [Deliver h i Undefined, Microtask] s) h
        = (hooks s h)\<lparr>prevSnapshotRef := Undefined, snapshot := Undefined\<rparr>"
      by (rule deliver_applied [OF inv cf])
    moreover have "prevSnapshotRef (hooks (onData h i Undefined s) h) = Undefined"
      using act by (simp add: hooks_onData)
    ultimately show ?thesis by (simp add: render_def useSubscribe_def)
  qed
  from 1 2 show ?thesis by blast
qed

theorem data_or_default_witness:
  "cleanupFn (hooks (run_events [Commit 0 call_A, Deliver 0 0 (Val ''a''), Microtask] page0) 0) = Some (0, True)
   \<and> render 0 call_A (run_events [Commit 0 call_A, Deliver 0 0 (Val ''a''), Microtask] page0) = Val ''a''
   \<and> Val ''a'' \<in> set (deliveries 0 [Commit 0 call_A, Deliver 0 0 (Val ''a''), Microtask])
   \<and> prevSnapshotRef (hooks
        (onData 0 0 Undefined (run_events [Commit 0 call_A, Deliver 0 0 (Val ''a''), Microtask] page0)) 0) = Undefined
   \<and> render 0 call_A
        (run_events [Deliver 0 0 Undefined, Microtask]
          (run_events [Commit 0 call_A, Deliver 0 0 (Val ''a''), Microtask] page0)) = Val ''default''"
proof -
  let ?evs = "[Commit 0 call_A, Deliver 0 0 (Val ''a''), Microtask]"
  let ?s = "run_events ?evs page0"
  have r: "?s = run_events ?evs init_world" by (simp only: page0_def)
  have c: "cleanupFn (hooks ?s 0) = Some (0, True)"
    and v: "render 0 call_A ?s = Val ''a''" "def call_A = Val ''default''"
    by (simp_all add: run_defs render_defs)
  from data_or_default [OF r, of 0 call_A 0 True] c v
  show ?thesis by simp
qed

text \<open>
  C9. The transition detector. In every state the page can reach, a render of instance
  \<open>h\<close> with arguments \<open>c\<close> computes \<open>hasTransitioned = true\<close> exactly when the effect of
  \<open>h\<close> has run at least once and, against the arguments \<open>c0\<close> of its last run, the source
  differs by identity, or the dependency lists have different lengths, or they differ at
  some index. Before the first run of the effect (the first mount) nothing is a
  transition.
\<close>

theorem transition_detector:
  "hasTransitioned c (hooks (run_events evs init_world) h) \<longleftrightarrow>
     (case last_commit h evs of
        None \<Rightarrow> False
      | Some c0 \<Rightarrow>
          source_arg c \<noteq> source_arg c0
          \<or> length (dependencies c) \<noteq> length (dependencies c0)
          \<or> (\<exists>i < length (dependencies c). dependencies c ! i \<noteq> dependencies c0 ! i))"
  (is "hasTransitioned c ?hk \<longleftrightarrow> _")
proof -
  have "refs ?hk =
     (case last_commit h evs of
        None \<Rightarrow> (False, UndefinedSource, [])
      | Some c0 \<Rightarrow> (True, source_arg c0, dependencies c0))"
    by (simp add: refs_run_events refs_init split: option.splits)
  then have *: "hasRunEffectRef ?hk = (last_commit h evs \<noteq> None)"
    "\<And>c0. last_commit h evs = Some c0 \<Longrightarrow>
       prevRRef ?hk = source_arg c0 \<and> prevDepsRef ?hk = dependencies c0"
    by (auto simp: refs_def split: option.splits)
  show ?thesis
  proof (cases "last_commit h evs")
    case None
    with * show ?thesis by (simp add: hasTransitioned_def)
  next
    case (Some c0)
    with * show ?thesis
      by (simp add: hasTransitioned_def depsChanged_iff) (auto simp: list_eq_iff_nth_eq)
  qed
qed

theorem transition_detector_witness:
  "hasTransitioned call_B (hooks (run_events [Commit 0 call_A] page0) 0)
   \<and> \<not> hasTransitioned call_A (hooks (run_events [Commit 0 call_A] page0) 0)
   \<and> hasTransitioned (call_A\<lparr>dependencies := [7]\<rparr>) (hooks (run_events [Commit 0 call_A] page0) 0)
   \<and> \<not> hasTransitioned call_B (hooks (run_events [] page0) 0)"
  unfolding page0_def
  by (simp add: transition_detector call_A_def call_B_def destructure_def example_options_def
      del: run_events.simps)

text \<open>
  C10, as amended. Committing a render whose source is \<open>null\<close> or \<open>undefined\<close> in a
  reachable state creates no subscription: the list of subscriptions keeps its length,
  none is mounted, no cleanup function is kept, the generation counter and the
  scheduler are untouched. (No operation of the model can throw.) The render returns the
  default or a real value that was delivered to the instance. It returns the default on
  a fresh instance; with \<open>keepPreviousData = false\<close> whenever the subscription last set up
  on the instance, if any, was set up with \<open>keepPreviousData = false\<close>; and after the commit
  whenever nothing real is retained. With \<open>keepPreviousData = true\<close> it returns the
  retained value, the snapshot or else the cache, if one is real; a snapshot left by a
  subscription set up with retention is returned by all renders under retention after
  the commit, until the instance is committed again. (As stated, the claim fails for
  \<open>keepPreviousData = false\<close>: see the counterexample below.)
\<close>

theorem absent_source:
  assumes "s = run_events evs init_world"
    and "absent (source_arg c)"
  shows "length (subs (hooks (commit h c s) h)) = length (subs (hooks s h))
       \<and> (\<forall>j < length (subs (hooks (commit h c s) h)). \<not> isMounted (subs (hooks (commit h c s) h) ! j))
       \<and> cleanupFn (hooks (commit h c s) h) = None
       \<and> generationRef (hooks (commit h c s) h) = generationRef (hooks s h)
       \<and> callbacks (commit h c s) = callbacks s \<and> microtasks (commit h c s) = microtasks s
       \<and> (evs = [] \<longrightarrow> render h c s = def c)
       \<and> (render h c s = def c \<or> render h c s \<noteq> Undefined \<and> render h c s \<in> set (deliveries h evs))
       \<and> (last_setup h evs \<noteq> Some True \<and> \<not> keepPreviousData c \<longrightarrow> render h c s = def c)
       \<and> (keepPreviousData c \<longrightarrow>
            render h c s =
              (if snapshot (hooks s h) \<noteq> Undefined then snapshot (hooks s h)
               else if prevSnapshotRef (hooks s h) \<noteq> Undefined then prevSnapshotRef (hooks s h)
               else def c))
       \<and> (keepPreviousData c' \<and> snapshot (hooks s h) \<noteq> Undefined
          \<and> (\<forall>i. cleanupFn (hooks s h) \<noteq> Some (i, False))
          \<and> list_all (quiet h (length (subs (hooks s h)))) evs' \<longrightarrow>
            render h c' (run_events evs' (commit h c s)) = snapshot (hooks s h))
       \<and> (snapshot (hooks s h) = Undefined
          \<and> (prevSnapshotRef (hooks s h) = Undefined \<or> cleanupFn (hooks s h) \<noteq> None) \<longrightarrow>
            render h c' (commit h c s) = def c')"
proof -
  have inv: "world_inv s" using assms(1) by (simp add: world_inv_reachable)
  then have hinv: "hook_inv (hooks s h)" by (simp add: world_inv_def)
  let ?hk1 = "case cleanupFn (hooks s h) of None \<Rightarrow> hooks s h | Some (i, keep) \<Rightarrow> cleanup i keep (hooks s h)"
  have hk: "hooks (commit h c s) h = ?hk1
       \<lparr>hasRunEffectRef := True, prevRRef := source_arg c, prevDepsRef := dependencies c,
        cleanupFn := None\<rparr>"
    by (rule commit_absent [OF assms(2)])
  have unm: "\<forall>j < length (subs ?hk1). \<not> isMounted (subs ?hk1 ! j)"
  proof (cases "cleanupFn (hooks s h)")
    case None
    with hinv show ?thesis by (auto simp: hook_inv_def)
  next
    case (Some p)
    obtain i k where "p = (i, k)" by (cases p)
    with Some cleanup_subs(1) [OF hinv, of i k] show ?thesis by simp
  qed
  have 1: "length (subs (hooks (commit h c s) h)) = length (subs (hooks s h))"
    "cleanupFn (hooks (commit h c s) h) = None"
    "generationRef (hooks (commit h c s) h) = generationRef (hooks s h)"
    by (simp_all add: hk cleanup_fields split: option.splits)
  have 2: "\<forall>j < length (subs (hooks (commit h c s) h)). \<not> isMounted (subs (hooks (commit h c s) h) ! j)"
    using unm by (simp add: hk)
  have 3: "evs = [] \<longrightarrow> render h c s = def c"
    using assms(1) by (simp add: render_def useSubscribe_def init_world_def init_hook_def)
  have "data_inv (\<lambda>h. insert Undefined (set (deliveries h evs))) s"
    unfolding assms(1) by (rule data_inv_reachable)
  then have 4: "render h c s = def c \<or> render h c s \<noteq> Undefined \<and> render h c s \<in> set (deliveries h evs)"
    by (rule render_delivered)
  have 5: "render h c s = def c" if "last_setup h evs \<noteq> Some True" "\<not> keepPreviousData c"
  proof -
    have "kept_inv (last_setup h evs) (hooks s h)"
      unfolding assms(1)
      by (rule kept_inv_run_events [OF world_inv_init])
        (simp add: kept_inv_def init_world_def init_hook_def)
    then show ?thesis
      unfolding render_def by (rule kept_inv_default [OF _ that(1) assms(2) that(2)])
  qed
  have 6: "keepPreviousData c \<longrightarrow>
            render h c s =
              (if snapshot (hooks s h) \<noteq> Undefined then snapshot (hooks s h)
               else if prevSnapshotRef (hooks s h) \<noteq> Undefined then prevSnapshotRef (hooks s h)
               else def c)"
    by (simp add: render_def useSubscribe_def)
  have 7: "render h c' (run_events evs' (commit h c s)) = snapshot (hooks s h)"
    if "keepPreviousData c'" "snapshot (hooks s h) \<noteq> Undefined"
      "\<forall>i. cleanupFn (hooks s h) \<noteq> Some (i, False)"
      "list_all (quiet h (length (subs (hooks s h)))) evs'"
    using kept_by_snapshot [OF inv that(3,4), of c] that(1,2)
    by (simp add: render_def useSubscribe_def)
  have 8: "render h c' (commit h c s) = def c'"
    if "snapshot (hooks s h) = Undefined"
      "prevSnapshotRef (hooks s h) = Undefined \<or> cleanupFn (hooks s h) \<noteq> None"
  proof -
    have "snapshot (hooks (commit h c s) h) = Undefined"
      using that(1) commit_values(1) [of h c s h] by auto
    moreover have "prevSnapshotRef (hooks (commit h c s) h) = Undefined"
      using that assms(2) by (auto simp: prevSnapshotRef_commit split: option.splits)
    ultimately show ?thesis by (simp add: render_def useSubscribe_def)
  qed
  from 1 2 3 4 5 6 7 8 show ?thesis by (simp add: sched_commit)
qed

theorem absent_source_witness:
  "absent (source_arg call_none) \<and> absent (source_arg call_none_reset)
   \<and> length (subs (hooks
        (commit 0 call_none (run_events [Commit 0 call_A, Deliver 0 0 (Val ''a''), Microtask] page0)) 0)) = 1
   \<and> render 0 call_none (run_events [Commit 0 call_A, Deliver 0 0 (Val ''a''), Microtask] page0) = Val ''a''
   \<and> render 0 call_none
        (run_events [Deliver 0 0 (Val ''late''), Microtask]
          (commit 0 call_none (run_events [Commit 0 call_A, Deliver 0 0 (Val ''a''), Microtask] page0)))
       = Val ''a''
   \<and> render 0 call_none page0 = Val ''default''
   \<and> last_setup 0 [Commit 0 call_A, Commit 0 call_B_reset, Deliver 0 1 (Val ''b''), Microtask,
                    Commit 0 call_none_reset] = Some False
   \<and> render 0 call_none_reset
        (run_events [Commit 0 call_A, Commit 0 call_B_reset, Deliver 0 1 (Val ''b''), Microtask,
                     Commit 0 call_none_reset] page0) = Val ''default''
   \<and> render 0 call_none
        (commit 0 call_none (run_events [Commit 0 call_A_reset, Deliver 0 0 (Val ''a'')] page0))
       = Val ''default''"
proof -
  let ?e1 = "[Commit 0 call_A, Deliver 0 0 (Val ''a''), Microtask]"
  let ?e2 = "[Commit 0 call_A, Commit 0 call_B_reset, Deliver 0 1 (Val ''b''), Microtask,
              Commit 0 call_none_reset]"
  let ?e3 = "[Commit 0 call_A_reset, Deliver 0 0 (Val ''a'')]"
  let ?ev = "[Deliver 0 0 (Val ''late''), Microtask] :: (nat, nat, string) event list"
  have r0: "page0 = run_events [] init_world" by (simp only: page0_def run_events.simps)
  have r1: "run_events ?e1 page0 = run_events ?e1 init_world"
    and r2: "run_events ?e2 page0 = run_events ?e2 init_world"
    and r3: "run_events ?e3 page0 = run_events ?e3 init_world"
    by (simp_all only: page0_def)
  have a: "absent (source_arg call_none)" and k: "keepPreviousData call_none"
    and an: "absent (source_arg call_none_reset)" and kn: "\<not> keepPreviousData call_none_reset"
    and d: "def call_none_reset = Val ''default''" "def call_none = Val ''default''"
    by (simp_all add: run_defs)
  have l: "length (subs (hooks (run_events ?e1 page0) 0)) = 1"
    and sn: "snapshot (hooks (run_events ?e1 page0) 0) = Val ''a''"
    and cf: "\<forall>i. cleanupFn (hooks (run_events ?e1 page0) 0) \<noteq> Some (i, False)"
    and q: "list_all (quiet 0 (length (subs (hooks (run_events ?e1 page0) 0)))) ?ev"
    by (simp_all add: run_defs)
  have ls: "last_setup 0 ?e2 = Some False" by (simp add: run_defs)
  have u: "snapshot (hooks (run_events ?e3 page0) 0) = Undefined"
    "cleanupFn (hooks (run_events ?e3 page0) 0) \<noteq> None"
    by (simp_all add: run_defs)
  note t0 = absent_source [OF r0 a, of 0]
  note t1 = absent_source [OF r1 a, of 0 call_none ?ev]
  note t2 = absent_source [OF r2 an, of 0]
  note t3 = absent_source [OF r3 a, of 0 call_none]
  have 1: "length (subs (hooks (commit 0 call_none (run_events ?e1 page0)) 0)) = 1"
    using t1 l by simp
  have 2: "render 0 call_none (run_events ?e1 page0) = Val ''a''"
    using t1 k sn by simp
  have 3: "render 0 call_none (run_events ?ev (commit 0 call_none (run_events ?e1 page0))) = Val ''a''"
    using t1 k sn cf q by simp
  have 4: "render 0 call_none page0 = Val ''default''"
    using t0 d by simp
  have 5: "render 0 call_none_reset (run_events ?e2 page0) = Val ''default''"
    using t2 ls kn d by simp
  have 6: "render 0 call_none (commit 0 call_none (run_events ?e3 page0)) = Val ''default''"
    using t3 u d by simp
  from a an 1 2 3 4 ls 5 6 show ?thesis by (intro conjI)
qed

text \<open>
  The claim as stated fails when the option changes together with the source: the
  subscription was set up with \<open>keepPreviousData = true\<close> and received \<open>a\<close>; the render
  that makes the source absent passes \<open>keepPreviousData = false\<close>. The cleanup closed
  over \<open>true\<close> and leaves the snapshot, so after the commit a render without source and
  without retention returns \<open>a\<close>, not the default.
\<close>

theorem absent_source_counterexample:
  "absent (source_arg call_none_reset) \<and> \<not> keepPreviousData call_none_reset
   \<and> def call_none_reset = Val ''default''
   \<and> render 0 call_none_reset
        (run_events [Commit 0 call_A, Deliver 0 0 (Val ''a''), Microtask, Commit 0 call_none_reset] page0)
       = Val ''a''"
  by (simp add: run_defs render_defs)

end
